theory Spec2Isabelle
  imports Main "HOL-Library.Multiset"
begin

section \<open>Belady spill chooser (ir/be/bespillbelady.c)\<close>

subsection \<open>Nodes, locations and the environment\<close>

text \<open>
  IR nodes are identified by their number; \<open>0\<close> plays the role of the null pointer.
  A \<open>loc_t\<close> pairs a node with its next-use distance (an \<open>unsigned\<close>, on which the
  pass never computes, so it is a natural number here).
\<close>

type_synonym ir_node = nat

record loc =
  irn :: ir_node
  time :: nat

datatype error =
    Workset_already_full
  | Ignore_flag_set
  | Defined_value_already_in_workset
  | No_end_set
  | Too_much_values
  | Out_of_bounds
  | Null_deref
  | Out_of_fuel

text \<open>
  The queries on the IR that more than one pass makes: the opcode tests \<open>is_Phi\<close> and
  \<open>is_Proj\<close>, whether the mode of a node is \<open>mode_T\<close>, and \<open>get_nodes_block\<close>.
\<close>

record ir_graph =
  is_Phi :: "ir_node \<Rightarrow> bool"
  is_Proj :: "ir_node \<Rightarrow> bool"
  is_mode_T :: "ir_node \<Rightarrow> bool"
  nodes_block :: "ir_node \<Rightarrow> ir_node"

text \<open>
  \<open>belady_env_t\<close>, the read-only part: the register class, and the queries on the IR,
  the schedule, the liveness and the next-use analysis that the pass asks of its
  collaborators. \<open>loc_qsort\<close> is \<open>qsort\<close> with \<open>loc_compare\<close>.
\<close>

record belady_env = ir_graph +
  n_regs :: nat
  cls :: nat
  irn_cls :: "ir_node \<Rightarrow> nat"
  flags_ignore :: "ir_node \<Rightarrow> bool"
  flags_dont_spill :: "ir_node \<Rightarrow> bool"
  be_get_next_use :: "ir_node \<Rightarrow> nat \<Rightarrow> ir_node \<Rightarrow> bool \<Rightarrow> nat"
  loc_qsort :: "loc list \<Rightarrow> loc list"
  is_Unknown :: "ir_node \<Rightarrow> bool"
  irn_ins :: "ir_node \<Rightarrow> ir_node list"
  sched :: "ir_node \<Rightarrow> ir_node list"
  live_in :: "ir_node \<Rightarrow> ir_node list"
  cfgpreds :: "ir_node \<Rightarrow> ir_node list"
  start_block :: ir_node

text \<open>
  Modelled from the spec: \<open>arch_irn_consider_in_reg_alloc\<close> (bearch.h is not among the
  sources). "Ignored values and values outside the current class are silently dropped by
  insert": a node is considered iff it belongs to the class and does not carry the ignore
  flag.
\<close>

definition arch_irn_consider_in_reg_alloc :: "belady_env \<Rightarrow> ir_node \<Rightarrow> bool" where
  "arch_irn_consider_in_reg_alloc env val \<longleftrightarrow> irn_cls env val = cls env \<and> \<not> flags_ignore env val"

text \<open>
  Modelled from the spec: what \<open>qsort\<close> with \<open>loc_compare\<close> (beuses_t.h is not among the
  sources) guarantees. "The working set is sorted by increasing distance"; the order of
  entries with equal distance is left open.
\<close>

definition sorts_by_time :: "(loc list \<Rightarrow> loc list) \<Rightarrow> bool" where
  "sorts_by_time qs \<longleftrightarrow> (\<forall>xs. mset (qs xs) = mset xs \<and> sorted (map time (qs xs)))"

subsection \<open>Working sets\<close>

text \<open>
  \<open>struct _workset_t\<close>: the current length and the inlined array, which has room for
  \<open>n_regs\<close> entries. Entries at positions \<open>len\<close> and above are stale.
\<close>

record workset =
  len :: nat
  vals :: "loc list"

definition workset_vals :: "workset \<Rightarrow> ir_node list" where
  "workset_vals ws = map irn (take (len ws) (vals ws))"

definition new_workset :: "belady_env \<Rightarrow> workset" where
  "new_workset env = \<lparr>len = 0, vals = replicate (n_regs env) \<lparr>irn = 0, time = 0\<rparr>\<rparr>"

definition workset_clone :: "workset \<Rightarrow> workset" where
  "workset_clone ws = ws"

definition workset_copy :: "workset \<Rightarrow> workset \<Rightarrow> workset" where
  "workset_copy tgt src = src"

definition workset_bulk_fill :: "workset \<Rightarrow> nat \<Rightarrow> loc list \<Rightarrow> workset" where
  "workset_bulk_fill ws cnt locs =
     ws\<lparr>len := cnt, vals := take cnt locs @ drop cnt (vals ws)\<rparr>"

definition workset_contains :: "workset \<Rightarrow> ir_node \<Rightarrow> bool" where
  "workset_contains ws val \<longleftrightarrow> val \<in> set (workset_vals ws)"

definition workset_insert :: "belady_env \<Rightarrow> workset \<Rightarrow> ir_node \<Rightarrow> error + workset" where
  "workset_insert env ws val =
     (if \<not> arch_irn_consider_in_reg_alloc env val then Inr ws
      else if val \<in> set (workset_vals ws) then Inr ws
      else if \<not> len ws < n_regs env then Inl Workset_already_full
      else if \<not> len ws < length (vals ws) then Inl Out_of_bounds
      else Inr (ws\<lparr>vals := (vals ws)[len ws := (vals ws ! len ws)\<lparr>irn := val\<rparr>],
                   len := len ws + 1\<rparr>))"

definition workset_clear :: "workset \<Rightarrow> workset" where
  "workset_clear ws = ws\<lparr>len := 0\<rparr>"

fun first_index :: "ir_node list \<Rightarrow> ir_node \<Rightarrow> nat option" where
  "first_index [] val = None"
| "first_index (x # xs) val =
     (if x = val then Some 0 else map_option Suc (first_index xs val))"

definition workset_remove :: "workset \<Rightarrow> ir_node \<Rightarrow> workset" where
  "workset_remove ws val =
     (case first_index (workset_vals ws) val of
        None \<Rightarrow> ws
      | Some i \<Rightarrow> ws\<lparr>vals := (vals ws)[i := vals ws ! (len ws - 1)], len := len ws - 1\<rparr>)"

definition workset_set_length :: "workset \<Rightarrow> nat \<Rightarrow> workset" where
  "workset_set_length ws length' = ws\<lparr>len := length'\<rparr>"

definition workset_sort :: "belady_env \<Rightarrow> workset \<Rightarrow> workset" where
  "workset_sort env ws =
     ws\<lparr>vals := loc_qsort env (take (len ws) (vals ws)) @ drop (len ws) (vals ws)\<rparr>"

text \<open>Running a fallible step after a fallible step.\<close>

definition bind_err :: "error + 'a \<Rightarrow> ('a \<Rightarrow> error + 'b) \<Rightarrow> error + 'b" where
  "bind_err r f = (case r of Inl e \<Rightarrow> Inl e | Inr x \<Rightarrow> f x)"

subsection \<open>The mutable state of the pass\<close>

text \<open>
  \<open>block_info_t\<close> hangs off the link field of a block; a null pointer is \<open>None\<close>.
\<close>

record block_info =
  ws_start :: "workset option"
  ws_end :: "workset option"

text \<open>
  The mutable part of \<open>belady_env_t\<close>, the block infos, and what the pass has asked of
  the spill environment so far: \<open>be_add_reload\<close>, \<open>be_spill_phi\<close> and
  \<open>be_add_reload_on_edge\<close> (bespill.c) only record a request, which is what the three
  lists hold, oldest request first.
\<close>

record belady_state =
  ws :: workset
  instr :: ir_node
  instr_nr :: nat
  used :: "ir_node set"
  info :: "ir_node \<Rightarrow> block_info option"
  reloads :: "(ir_node \<times> ir_node) list"
  spilled_phis :: "ir_node list"
  edge_reloads :: "(ir_node \<times> ir_node \<times> nat) list"

definition be_add_reload :: "belady_state \<Rightarrow> ir_node \<Rightarrow> ir_node \<Rightarrow> belady_state" where
  "be_add_reload st val bef = st\<lparr>reloads := reloads st @ [(val, bef)]\<rparr>"

definition be_spill_phi :: "belady_state \<Rightarrow> ir_node \<Rightarrow> belady_state" where
  "be_spill_phi st phi = st\<lparr>spilled_phis := spilled_phis st @ [phi]\<rparr>"

definition be_add_reload_on_edge ::
  "belady_state \<Rightarrow> ir_node \<Rightarrow> ir_node \<Rightarrow> nat \<Rightarrow> belady_state" where
  "be_add_reload_on_edge st val blk i = st\<lparr>edge_reloads := edge_reloads st @ [(val, blk, i)]\<rparr>"

subsection \<open>Next-use distance\<close>

definition get_distance ::
  "belady_env \<Rightarrow> ir_node \<Rightarrow> nat \<Rightarrow> ir_node \<Rightarrow> bool \<Rightarrow> error + nat" where
  "get_distance env from from_step def skip_from_uses =
     (let dist = be_get_next_use env from from_step def skip_from_uses in
      if flags_ignore env def then Inl Ignore_flag_set
      else if flags_dont_spill env def then Inr 0
      else Inr dist)"

subsection \<open>displace\<close>

text \<open>The address of a string literal is never null.\<close>

definition str_literal :: "string \<Rightarrow> bool" where
  "str_literal s = True"

text \<open>
  Step 1 of \<open>displace\<close>: the loop over \<open>new_vals\<close>. \<open>to_insert\<close> is the filled part of
  the \<open>alloca\<close>'d array of \<open>n_regs\<close> pointers, so \<open>demand\<close> is its length.
\<close>

fun displace_demand ::
  "belady_env \<Rightarrow> bool \<Rightarrow> ir_node list \<Rightarrow> belady_state \<Rightarrow> ir_node list
     \<Rightarrow> error + (belady_state \<times> ir_node list)" where
  "displace_demand env is_usage [] st to_insert = Inr (st, to_insert)"
| "displace_demand env is_usage (val # rest) st to_insert =
     (let st1 = (if is_usage then st\<lparr>used := insert val (used st)\<rparr> else st) in
      if \<not> workset_contains (ws st1) val then
        if \<not> length to_insert < n_regs env then Inl Out_of_bounds
        else displace_demand env is_usage rest
               (if is_usage then be_add_reload st1 val (instr st1) else st1)
               (to_insert @ [val])
      else if \<not> (is_usage \<or> str_literal ''Defined value already in workset?!?'')
        then Inl Defined_value_already_in_workset
      else displace_demand env is_usage rest st1 to_insert)"

text \<open>The loop that stamps every entry with its current next-use distance.\<close>

fun set_times :: "belady_env \<Rightarrow> belady_state \<Rightarrow> bool \<Rightarrow> loc list \<Rightarrow> error + loc list" where
  "set_times env st is_usage [] = Inr []"
| "set_times env st is_usage (l # ls) =
     bind_err (get_distance env (instr st) (instr_nr st) (irn l) (\<not> is_usage))
       (\<lambda>t. bind_err (set_times env st is_usage ls) (\<lambda>ls'. Inr (l\<lparr>time := t\<rparr> # ls')))"

text \<open>
  The loop over the entries from \<open>max_allowed\<close> on: a value disposed of before its first
  use in the block leaves the block's start workset.
\<close>

fun dispose :: "belady_env \<Rightarrow> ir_node list \<Rightarrow> belady_state \<Rightarrow> error + belady_state" where
  "dispose env [] st = Inr st"
| "dispose env (v # rest) st =
     (if v \<notin> used st then
        (let curr_bb = nodes_block env (instr st) in
         case info st curr_bb of
           None \<Rightarrow> Inl Null_deref
         | Some bi \<Rightarrow>
             (case ws_start bi of
                None \<Rightarrow> Inl Null_deref
              | Some start \<Rightarrow>
                  (let st1 = st\<lparr>info := (info st)(curr_bb \<mapsto>
                                      bi\<lparr>ws_start := Some (workset_remove start v)\<rparr>)\<rparr>;
                       st2 = (if is_Phi env v then be_spill_phi st1 v else st1)
                   in dispose env rest st2)))
      else dispose env rest st)"

text \<open>Step 3 of \<open>displace\<close>: the new values enter the workset.\<close>

fun insert_all :: "belady_env \<Rightarrow> workset \<Rightarrow> ir_node list \<Rightarrow> error + workset" where
  "insert_all env w [] = Inr w"
| "insert_all env w (v # vs) = bind_err (workset_insert env w v) (\<lambda>w'. insert_all env w' vs)"

text \<open>Step 2 of \<open>displace\<close>, the body of \<open>if (len > max_allowed)\<close>.\<close>

definition make_room ::
  "belady_env \<Rightarrow> belady_state \<Rightarrow> bool \<Rightarrow> nat \<Rightarrow> error + belady_state" where
  "make_room env st is_usage max_allowed =
     bind_err (set_times env st is_usage (take (len (ws st)) (vals (ws st))))
       (\<lambda>stamped.
          let w1 = (ws st)\<lparr>vals := stamped @ drop (len (ws st)) (vals (ws st))\<rparr>;
              w2 = workset_sort env w1;
              st1 = st\<lparr>ws := w2\<rparr>
          in bind_err (dispose env (drop max_allowed (workset_vals w2)) st1)
               (\<lambda>st2. Inr (st2\<lparr>ws := workset_set_length (ws st2) max_allowed\<rparr>)))"

definition displace ::
  "belady_env \<Rightarrow> belady_state \<Rightarrow> workset \<Rightarrow> bool \<Rightarrow> error + belady_state" where
  "displace env st new_vals is_usage =
     bind_err (displace_demand env is_usage (workset_vals new_vals) st [])
       (\<lambda>(st1, to_insert).
          let demand = length to_insert;
              max_allowed = n_regs env - demand
          in bind_err (if len (ws st1) > max_allowed
                       then make_room env st1 is_usage max_allowed else Inr st1)
               (\<lambda>st2. bind_err (insert_all env (ws st2) to_insert)
                  (\<lambda>w. Inr (st2\<lparr>ws := w\<rparr>))))"

subsection \<open>The start workset of a block\<close>

text \<open>\<open>sched_first\<close> of a block without instructions is the block itself.\<close>

definition sched_first :: "belady_env \<Rightarrow> ir_node \<Rightarrow> ir_node" where
  "sched_first env blk = (case sched env blk of [] \<Rightarrow> blk | x # _ \<Rightarrow> x)"

text \<open>The loop over the Phis that lead the schedule; it stops at the first other node.\<close>

fun phi_starters :: "belady_env \<Rightarrow> ir_node \<Rightarrow> ir_node list \<Rightarrow> error + loc list" where
  "phi_starters env first [] = Inr []"
| "phi_starters env first (n # rest) =
     (if \<not> is_Phi env n then Inr []
      else if \<not> arch_irn_consider_in_reg_alloc env n then phi_starters env first rest
      else bind_err (get_distance env first 0 n False)
             (\<lambda>t. bind_err (phi_starters env first rest)
                (\<lambda>ls. Inr (\<lparr>irn = n, time = t\<rparr> # ls))))"

text \<open>The loop over the live-in values of the block.\<close>

fun live_starters :: "belady_env \<Rightarrow> ir_node \<Rightarrow> ir_node list \<Rightarrow> error + loc list" where
  "live_starters env first [] = Inr []"
| "live_starters env first (n # rest) =
     (if \<not> arch_irn_consider_in_reg_alloc env n then live_starters env first rest
      else bind_err (get_distance env first 0 n False)
             (\<lambda>t. bind_err (live_starters env first rest)
                (\<lambda>ls. Inr (\<lparr>irn = n, time = t\<rparr> # ls))))"

text \<open>The loop over the starters that did not make it into the start workset.\<close>

fun spill_phis :: "belady_env \<Rightarrow> ir_node \<Rightarrow> ir_node list \<Rightarrow> belady_state \<Rightarrow> belady_state" where
  "spill_phis env blk [] st = st"
| "spill_phis env blk (n # rest) st =
     (if \<not> is_Phi env n \<or> nodes_block env n \<noteq> blk then spill_phis env blk rest st
      else spill_phis env blk rest (be_spill_phi st n))"

text \<open>\<open>res->ws_start = w\<close>, where \<open>res\<close> is the info of \<open>blk\<close>.\<close>

definition set_ws_start :: "belady_state \<Rightarrow> ir_node \<Rightarrow> workset \<Rightarrow> error + belady_state" where
  "set_ws_start st blk w =
     (case info st blk of
        None \<Rightarrow> Inl Null_deref
      | Some res \<Rightarrow> Inr (st\<lparr>info := (info st)(blk \<mapsto> res\<lparr>ws_start := Some w\<rparr>)\<rparr>))"

text \<open>
  \<open>compute_block_start_info\<close>. Its first argument stands for the recursive call
  \<open>belady(pred_blk, env)\<close>. The block info it returns is the one the state holds for
  \<open>blk\<close> afterwards.
\<close>

definition compute_block_start_info ::
  "(belady_state \<Rightarrow> ir_node \<Rightarrow> error + belady_state)
     \<Rightarrow> belady_env \<Rightarrow> belady_state \<Rightarrow> ir_node \<Rightarrow> error + belady_state" where
  "compute_block_start_info rec env st blk =
     (case info st blk of
        Some res \<Rightarrow> Inr st
      | None \<Rightarrow>
          (let st0 = st\<lparr>info := (info st)(blk \<mapsto> \<lparr>ws_start = None, ws_end = None\<rparr>)\<rparr>;
               first = sched_first env blk
           in bind_err (phi_starters env first (sched env blk))
             (\<lambda>ps. bind_err (live_starters env first (live_in env blk))
             (\<lambda>ls.
                let cnt = length (ps @ ls);
                    starters = loc_qsort env (ps @ ls)
                in if length (cfgpreds env blk) = 1 \<and> blk \<noteq> start_block env then
                     (let pred_blk = cfgpreds env blk ! 0
                      in bind_err (case info st0 pred_blk of
                                     None \<Rightarrow> rec st0 pred_blk
                                   | Some _ \<Rightarrow> Inr st0)
                           (\<lambda>st1. case info st1 pred_blk of
                                     None \<Rightarrow> Inl Null_deref
                                   | Some pred_info \<Rightarrow>
                                       (case ws_end pred_info of
                                          None \<Rightarrow> Inl No_end_set
                                        | Some e \<Rightarrow> set_ws_start st1 blk (workset_clone e))))
                   else
                     (let ws_count = min cnt (n_regs env)
                      in bind_err (set_ws_start st0 blk
                                     (workset_bulk_fill (new_workset env) ws_count starters))
                           (\<lambda>st1. Inr (spill_phis env blk
                                          (map irn (drop ws_count starters)) st1)))))))"

subsection \<open>The walk over a block\<close>

text \<open>
  One instruction that is neither a Proj nor a Phi: its uses are displaced, then its
  definitions. \<open>rest\<close> is the schedule after the instruction, where the Projs of a
  tuple follow it.
\<close>

definition belady_instr ::
  "belady_env \<Rightarrow> ir_node list \<Rightarrow> belady_state \<Rightarrow> workset \<Rightarrow> ir_node
     \<Rightarrow> error + (belady_state \<times> workset)" where
  "belady_instr env rest st new_vals n =
     (let st1 = st\<lparr>instr := n\<rparr> in
      bind_err (insert_all env (workset_clear new_vals) (irn_ins env n))
        (\<lambda>nv1. bind_err (displace env st1 nv1 True)
        (\<lambda>st2. bind_err (insert_all env (workset_clear nv1)
                           (if is_mode_T env n then takeWhile (is_Proj env) rest else [n]))
        (\<lambda>nv2. bind_err (displace env st2 nv2 False)
        (\<lambda>st3. Inr (st3\<lparr>instr_nr := instr_nr st3 + 1\<rparr>, nv2))))))"

fun belady_walk ::
  "belady_env \<Rightarrow> ir_node list \<Rightarrow> belady_state \<Rightarrow> workset \<Rightarrow> error + belady_state" where
  "belady_walk env [] st new_vals = Inr st"
| "belady_walk env (n # rest) st new_vals =
     (if \<not> len (ws st) \<le> n_regs env then Inl Too_much_values
      else if is_Proj env n \<or> is_Phi env n then belady_walk env rest st new_vals
      else bind_err (belady_instr env rest st new_vals n)
             (\<lambda>(st', nv). belady_walk env rest st' nv))"

text \<open>The body of \<open>belady\<close>; \<open>rec\<close> is \<open>belady\<close> itself, for the call made on behalf of
  an unvisited predecessor.\<close>

definition belady_body ::
  "(belady_state \<Rightarrow> ir_node \<Rightarrow> error + belady_state)
     \<Rightarrow> belady_env \<Rightarrow> belady_state \<Rightarrow> ir_node \<Rightarrow> error + belady_state" where
  "belady_body rec env st blk =
     (case info st blk of
        Some _ \<Rightarrow> Inr st
      | None \<Rightarrow>
          bind_err (compute_block_start_info rec env st blk)
            (\<lambda>st1. case info st1 blk of
                      None \<Rightarrow> Inl Null_deref
                    | Some blk_info \<Rightarrow>
                        (case ws_start blk_info of
                           None \<Rightarrow> Inl Null_deref
                         | Some start \<Rightarrow>
                             (let st2 = st1\<lparr>ws := workset_copy (ws st1) start,
                                             used := {}, instr_nr := 0\<rparr>
                              in bind_err (belady_walk env (sched env blk) st2 (new_workset env))
                                   (\<lambda>st3. case info st3 blk of
                                             None \<Rightarrow> Inl Null_deref
                                           | Some bi \<Rightarrow>
                                               Inr (st3\<lparr>info := (info st3)(blk \<mapsto>
                                                      bi\<lparr>ws_end := Some (workset_clone (ws st3))\<rparr>)\<rparr>))))))"

text \<open>
  \<open>belady\<close>. Every nested call is for a block that has no info yet and gives it one
  before going on, so the depth of the recursion is bounded by the number of blocks;
  the first argument is that bound.
\<close>

primrec belady :: "nat \<Rightarrow> belady_env \<Rightarrow> belady_state \<Rightarrow> ir_node \<Rightarrow> error + belady_state" where
  "belady 0 env st blk = Inl Out_of_fuel"
| "belady (Suc fuel) env st blk = belady_body (belady fuel env) env st blk"

subsection \<open>Block borders\<close>

definition get_irn_n :: "belady_env \<Rightarrow> ir_node \<Rightarrow> nat \<Rightarrow> error + ir_node" where
  "get_irn_n env n i =
     (if i < length (irn_ins env n) then Inr (irn_ins env n ! i) else Inl Out_of_bounds)"

text \<open>The loop over the start workset of \<open>blk\<close> for the predecessor at position \<open>i\<close>,
  whose end workset is \<open>wsp\<close>.\<close>

fun fix_values ::
  "belady_env \<Rightarrow> ir_node \<Rightarrow> nat \<Rightarrow> workset option \<Rightarrow> ir_node list \<Rightarrow> belady_state
     \<Rightarrow> error + belady_state" where
  "fix_values env blk i wsp [] st = Inr st"
| "fix_values env blk i wsp (irnb0 # rest) st =
     bind_err (if is_Phi env irnb0 \<and> blk = nodes_block env irnb0
               then get_irn_n env irnb0 i else Inr irnb0)
       (\<lambda>irnb.
          if is_Unknown env irnb then fix_values env blk i wsp rest st
          else (case wsp of
                  None \<Rightarrow> Inl Null_deref
                | Some p \<Rightarrow>
                    if irnb \<in> set (workset_vals p) then fix_values env blk i wsp rest st
                    else fix_values env blk i wsp rest (be_add_reload_on_edge st irnb blk i)))"

fun fix_preds ::
  "belady_env \<Rightarrow> ir_node \<Rightarrow> workset option \<Rightarrow> (nat \<times> ir_node) list \<Rightarrow> belady_state
     \<Rightarrow> error + belady_state" where
  "fix_preds env blk wsb [] st = Inr st"
| "fix_preds env blk wsb ((i, pred) # rest) st =
     (case info st pred of
        None \<Rightarrow> Inl Null_deref
      | Some pred_info \<Rightarrow>
          (case wsb of
             None \<Rightarrow> Inl Null_deref
           | Some b \<Rightarrow>
               bind_err (fix_values env blk i (ws_end pred_info) (workset_vals b) st)
                 (\<lambda>st'. fix_preds env blk wsb rest st')))"

definition fix_block_borders :: "belady_env \<Rightarrow> belady_state \<Rightarrow> ir_node \<Rightarrow> error + belady_state" where
  "fix_block_borders env st blk =
     (case info st blk of
        None \<Rightarrow> Inl Null_deref
      | Some bi \<Rightarrow> fix_preds env blk (ws_start bi) (enumerate 0 (cfgpreds env blk)) st)"

subsection \<open>A small program\<close>

text \<open>
  A class of two registers and five blocks. Block \<open>100\<close> is the start block and
  schedules \<open>1\<close>, \<open>2\<close> and \<open>3 = Add(1, 2)\<close>; block \<open>101\<close> (predecessor \<open>100\<close>)
  schedules \<open>4 = Add(3, 1)\<close>; the join block \<open>102\<close> (predecessors \<open>100\<close> and \<open>101\<close>)
  schedules the Phi \<open>5 = Phi(3, 4)\<close> and \<open>6 = Neg(5)\<close>; block \<open>103\<close> (predecessor
  \<open>102\<close>) schedules \<open>7 = Neg(6)\<close>, \<open>8 = Add(7, 1)\<close> and \<open>9 = Add(8, 5)\<close>; block \<open>104\<close>
  (predecessor \<open>102\<close>) schedules \<open>10 = Add(5, 11)\<close>, where \<open>11\<close> is an ignored node.

  \<open>ex_next_uses\<close> lists, for an instruction, a value defined no later and the
  \<open>skip_from_uses\<close> flag, the number of instructions to the nearest use of the value on
  a path from the instruction; a value that has no such use is 1000 away.
\<close>

definition ex_next_uses :: "((ir_node \<times> ir_node \<times> bool) \<times> nat) list" where
  "ex_next_uses =
     [((1, 1, False), 2), ((1, 1, True), 2), ((2, 1, False), 1), ((2, 1, True), 1),
      ((2, 2, False), 1), ((2, 2, True), 1), ((3, 1, False), 0), ((3, 1, True), 1),
      ((3, 2, False), 0), ((3, 3, False), 1), ((3, 3, True), 1), ((4, 1, False), 0),
      ((4, 1, True), 3), ((4, 3, False), 0), ((4, 4, False), 1), ((4, 4, True), 1),
      ((5, 1, False), 2), ((5, 1, True), 2), ((5, 5, False), 0), ((5, 5, True), 1),
      ((6, 1, False), 2), ((6, 1, True), 2), ((6, 5, False), 0), ((6, 5, True), 1),
      ((6, 6, False), 1), ((6, 6, True), 1), ((7, 1, False), 1), ((7, 1, True), 1),
      ((7, 5, False), 2), ((7, 5, True), 2), ((7, 6, False), 0), ((7, 7, False), 1),
      ((7, 7, True), 1), ((8, 1, False), 0), ((8, 5, False), 1), ((8, 5, True), 1),
      ((8, 7, False), 0), ((8, 8, False), 1), ((8, 8, True), 1), ((9, 5, False), 0),
      ((9, 8, False), 0), ((10, 5, False), 0)]"

definition ex_env :: belady_env where
  "ex_env = \<lparr>
     is_Phi = (\<lambda>n. n = 5),
     is_Proj = (\<lambda>n. False),
     is_mode_T = (\<lambda>n. False),
     nodes_block = (\<lambda>n. if n \<le> 3 then 100 else if n = 4 then 101
                         else if n \<le> 6 then 102 else if n \<le> 9 then 103 else 104),
     n_regs = 2,
     cls = 0,
     irn_cls = (\<lambda>n. 0),
     flags_ignore = (\<lambda>n. n = 11),
     flags_dont_spill = (\<lambda>n. False),
     be_get_next_use = (\<lambda>from step d skip.
        case map_of ex_next_uses (from, d, skip) of Some t \<Rightarrow> t | None \<Rightarrow> 1000),
     loc_qsort = sort_key time,
     is_Unknown = (\<lambda>n. False),
     irn_ins = (\<lambda>n. if n = 3 then [1, 2] else if n = 4 then [3, 1]
                     else if n = 5 then [3, 4] else if n = 6 then [5]
                     else if n = 7 then [6] else if n = 8 then [7, 1]
                     else if n = 9 then [8, 5] else if n = 10 then [5, 11] else []),
     sched = (\<lambda>b. if b = 100 then [1, 2, 3] else if b = 101 then [4]
                   else if b = 102 then [5, 6] else if b = 103 then [7, 8, 9]
                   else if b = 104 then [10] else []),
     live_in = (\<lambda>b. if b = 101 then [1, 3] else if b = 102 then [1]
                     else if b = 103 then [1, 5, 6] else if b = 104 then [5] else []),
     cfgpreds = (\<lambda>b. if b = 101 then [100] else if b = 102 then [100, 101]
                      else if b = 103 then [102] else if b = 104 then [102] else []),
     start_block = 100 \<rparr>"

text \<open>The state in which \<open>be_spill_belady\<close> starts the walk over the blocks.\<close>

definition init_state :: "belady_env \<Rightarrow> belady_state" where
  "init_state env = \<lparr>
     ws = new_workset env, instr = 0, instr_nr = 0, used = {},
     info = (\<lambda>b. None), reloads = [], spilled_phis = [], edge_reloads = [] \<rparr>"

definition ex_ws :: workset where
  "ex_ws = \<lparr>len = 1, vals = [\<lparr>irn = 5, time = 0\<rparr>, \<lparr>irn = 0, time = 0\<rparr>]\<rparr>"

text \<open>
  The state in which block \<open>102\<close> is when the uses of instruction \<open>6\<close> have been
  displaced and its definition is about to be, the state after that, and a workset of
  new values that holds one node.
\<close>

definition ex_st :: belady_state where
  "ex_st = \<lparr>
     ws = \<lparr>len = 2, vals = [\<lparr>irn = 5, time = 0\<rparr>, \<lparr>irn = 1, time = 2\<rparr>]\<rparr>,
     instr = 6, instr_nr = 0, used = {5},
     info = [102 \<mapsto> \<lparr>ws_start = Some \<lparr>len = 2, vals = [\<lparr>irn = 5, time = 0\<rparr>, \<lparr>irn = 1, time = 2\<rparr>]\<rparr>,
                      ws_end = None\<rparr>],
     reloads = [], spilled_phis = [], edge_reloads = [] \<rparr>"

definition ex_st_after :: belady_state where
  "ex_st_after = ex_st\<lparr>
     ws := \<lparr>len = 2, vals = [\<lparr>irn = 5, time = 1\<rparr>, \<lparr>irn = 6, time = 2\<rparr>]\<rparr>,
     info := [102 \<mapsto> \<lparr>ws_start = Some \<lparr>len = 1, vals = [\<lparr>irn = 5, time = 0\<rparr>, \<lparr>irn = 1, time = 2\<rparr>]\<rparr>,
                       ws_end = None\<rparr>]\<rparr>"

definition ex_new_vals :: "ir_node \<Rightarrow> workset" where
  "ex_new_vals v = \<lparr>len = 1, vals = [\<lparr>irn = v, time = 0\<rparr>, \<lparr>irn = 0, time = 0\<rparr>]\<rparr>"

text \<open>Every end workset recorded so far holds at most \<open>n_regs\<close> values.\<close>

definition ends_bounded :: "belady_env \<Rightarrow> belady_state \<Rightarrow> bool" where
  "ends_bounded env st \<longleftrightarrow>
     (\<forall>b bi w. info st b = Some bi \<longrightarrow> ws_end bi = Some w \<longrightarrow> len w \<le> n_regs env)"

text \<open>
  The edge fixup in the words of the specification. A value of the start workset of \<open>B\<close>
  that is a Phi of \<open>B\<close> stands for its \<open>i\<close>-th argument; a value with opcode Unknown is
  skipped; a value that is not in the end workset of \<open>P\<close> gets a reload on the edge
  \<open>(P, B, i)\<close>.
\<close>

definition border_value_spec :: "belady_env \<Rightarrow> ir_node \<Rightarrow> nat \<Rightarrow> ir_node \<Rightarrow> ir_node" where
  "border_value_spec env blk i v =
     (if is_Phi env v \<and> nodes_block env v = blk then irn_ins env v ! i else v)"

definition edge_fixup_spec ::
  "belady_env \<Rightarrow> ir_node \<Rightarrow> nat \<Rightarrow> ir_node list \<Rightarrow> ir_node list
     \<Rightarrow> (ir_node \<times> ir_node \<times> nat) list" where
  "edge_fixup_spec env blk i start_vals end_vals =
     map (\<lambda>v. (v, blk, i))
       (filter (\<lambda>v. \<not> is_Unknown env v \<and> v \<notin> set end_vals)
          (map (border_value_spec env blk i) start_vals))"

text \<open>The values of a workset that may be missing, and of the end workset of a block.\<close>

definition opt_vals :: "workset option \<Rightarrow> ir_node list" where
  "opt_vals w = (case w of None \<Rightarrow> [] | Some x \<Rightarrow> workset_vals x)"

definition end_vals_of :: "belady_state \<Rightarrow> ir_node \<Rightarrow> ir_node list" where
  "end_vals_of st b = (case info st b of None \<Rightarrow> [] | Some bi \<Rightarrow> opt_vals (ws_end bi))"

definition start_vals_of :: "belady_state \<Rightarrow> ir_node \<Rightarrow> ir_node list" where
  "start_vals_of st b = (case info st b of None \<Rightarrow> [] | Some bi \<Rightarrow> opt_vals (ws_start bi))"

text \<open>
  A state of the example program before the borders are fixed: the start and end
  worksets of the blocks \<open>100\<close>, \<open>101\<close> and \<open>102\<close>, and no request made yet. The Phi
  \<open>5\<close> of block \<open>102\<close> is in the start workset of its block; its argument through
  predecessor \<open>0\<close> is \<open>3\<close>, through predecessor \<open>1\<close> it is \<open>4\<close>.
\<close>

definition ex_border_st :: belady_state where
  "ex_border_st = (init_state ex_env)\<lparr>info :=
     [100 \<mapsto> \<lparr>ws_start = Some \<lparr>len = 0, vals = [\<lparr>irn = 0, time = 0\<rparr>, \<lparr>irn = 0, time = 0\<rparr>]\<rparr>,
              ws_end = Some \<lparr>len = 2, vals = [\<lparr>irn = 1, time = 1\<rparr>, \<lparr>irn = 3, time = 1000\<rparr>]\<rparr>\<rparr>,
      101 \<mapsto> \<lparr>ws_start = Some \<lparr>len = 2, vals = [\<lparr>irn = 1, time = 1\<rparr>, \<lparr>irn = 3, time = 1000\<rparr>]\<rparr>,
              ws_end = Some \<lparr>len = 1, vals = [\<lparr>irn = 1, time = 3\<rparr>, \<lparr>irn = 3, time = 1000\<rparr>]\<rparr>\<rparr>,
      102 \<mapsto> \<lparr>ws_start = Some \<lparr>len = 2, vals = [\<lparr>irn = 5, time = 0\<rparr>, \<lparr>irn = 1, time = 2\<rparr>]\<rparr>,
              ws_end = Some \<lparr>len = 2, vals = [\<lparr>irn = 5, time = 1\<rparr>, \<lparr>irn = 6, time = 2\<rparr>]\<rparr>\<rparr>]\<rparr>"

section \<open>Chordal allocator (ir/be/bechordal.c)\<close>

text \<open>
  Modelled from the spec: the bitsets of adt/bitset.h, which is not among the sources. A
  bitset of size \<open>n\<close> is a list of \<open>n\<close> booleans, bit \<open>i\<close> at position \<open>i\<close>.
  \<open>bitset_contains lhs rhs\<close> says that every bit set in \<open>lhs\<close> is set in \<open>rhs\<close>; this is
  the reading under which "if one partner's regs is a subset of the other's, the subset
  wins" describes \<open>get_decisive_partner_regs\<close>. \<open>bitset_next_set\<close> is \<open>None\<close> where the C
  function returns \<open>(size_t)-1\<close>; setting or clearing a bit outside the bitset fails.
\<close>

type_synonym bitset = "bool list"

datatype chordal_error =
    Class_mismatch
  | Dangling_partner
  | Too_many_nodes
  | No_register_assigned
  | Register_must_have_been_assigned
  | Precolored_register_not_free
  | Value_is_ignore
  | No_free_register
  | Def_already_encountered
  | Bit_out_of_range

definition bitset_foreach :: "bitset \<Rightarrow> nat list" where
  "bitset_foreach bs = filter (\<lambda>i. bs ! i) [0..<length bs]"

definition bitset_contains :: "bitset \<Rightarrow> bitset \<Rightarrow> bool" where
  "bitset_contains lhs rhs \<longleftrightarrow> list_all (\<lambda>i. i < length rhs \<and> rhs ! i) (bitset_foreach lhs)"

definition bitset_is_set :: "bitset \<Rightarrow> nat \<Rightarrow> bool" where
  "bitset_is_set bs i \<longleftrightarrow> i < length bs \<and> bs ! i"

definition bitset_set :: "bitset \<Rightarrow> nat \<Rightarrow> chordal_error + bitset" where
  "bitset_set bs i = (if i < length bs then Inr (bs[i := True]) else Inl Bit_out_of_range)"

definition bitset_clear :: "bitset \<Rightarrow> nat \<Rightarrow> chordal_error + bitset" where
  "bitset_clear bs i = (if i < length bs then Inr (bs[i := False]) else Inl Bit_out_of_range)"

definition bitset_clear_all :: "bitset \<Rightarrow> bitset" where
  "bitset_clear_all bs = map (\<lambda>b. False) bs"

definition bitset_flip_all :: "bitset \<Rightarrow> bitset" where
  "bitset_flip_all bs = map Not bs"

definition bitset_and :: "bitset \<Rightarrow> bitset \<Rightarrow> bitset" where
  "bitset_and tgt src = map (\<lambda>(a, b). a \<and> b) (zip tgt src)"

fun bitset_next_set :: "bitset \<Rightarrow> nat \<Rightarrow> nat option" where
  "bitset_next_set [] pos = None"
| "bitset_next_set (b # bs) pos =
     (if pos = 0 then (if b then Some 0 else map_option Suc (bitset_next_set bs 0))
      else map_option Suc (bitset_next_set bs (pos - 1)))"

text \<open>
  \<open>be_operand_t\<close>, as far as the allocator reads it: the value, the admissible registers,
  the class of the requirement, and the partner, which is a pointer to another operand
  of the same instruction and here its position among the operands.
\<close>

record be_operand =
  carrier :: ir_node
  regs :: bitset
  req_cls :: nat
  partner :: "nat option"

definition get_decisive_partner_regs ::
  "be_operand list \<Rightarrow> be_operand \<Rightarrow> chordal_error + bitset option" where
  "get_decisive_partner_regs ops o1 =
     (case partner o1 of
        None \<Rightarrow> Inr (Some (regs o1))
      | Some j \<Rightarrow>
          if \<not> j < length ops then Inl Dangling_partner
          else (let o2 = ops ! j in
                if req_cls o1 \<noteq> req_cls o2 then Inl Class_mismatch
                else if bitset_contains (regs o1) (regs o2) then Inr (Some (regs o1))
                else if bitset_contains (regs o2) (regs o1) then Inr (Some (regs o2))
                else Inr None))"

text \<open>
  The bipartite graph under construction in \<open>handle_constraints\<close>: the \<open>partners\<close> map
  (a value may be entered with a null partner), the nodes to allocate (\<open>n_alloc\<close> is
  their number) and the edges added by \<open>bipartite_add\<close>, from the position of a node
  among \<open>alloc_nodes\<close> to a register index.
\<close>

record alloc_graph =
  partners :: "ir_node \<Rightarrow> ir_node option option"
  alloc_nodes :: "ir_node list"
  bp_edges :: "(nat \<times> nat) list"

text \<open>
  The body of the loop of \<open>handle_constraints\<close> over the operands of the instruction,
  and the loop. \<open>alloc_nodes\<close> has room for \<open>n\<close> nodes, the number of registers of the
  class.
\<close>

definition add_operand ::
  "nat \<Rightarrow> be_operand list \<Rightarrow> be_operand \<Rightarrow> alloc_graph \<Rightarrow> chordal_error + alloc_graph" where
  "add_operand n ops op g =
     (case (case partner op of
              None \<Rightarrow> Inr None
            | Some j \<Rightarrow> if j < length ops then Inr (Some (carrier (ops ! j)))
                        else Inl Dangling_partner) of
        Inl e \<Rightarrow> Inl e
      | Inr partner_node \<Rightarrow>
          if (case partner_node of None \<Rightarrow> False | Some p \<Rightarrow> partners g p \<noteq> None)
          then Inr g
          else
            (let ps1 = (partners g)(carrier op \<mapsto> partner_node);
                 ps2 = (case partner_node of None \<Rightarrow> ps1 | Some p \<Rightarrow> ps1(p \<mapsto> Some (carrier op)));
                 g1 = g\<lparr>partners := ps2\<rparr>
             in if carrier op \<in> set (alloc_nodes g1) then Inr g1
                else if \<not> length (alloc_nodes g1) < n then Inl Too_many_nodes
                else (case get_decisive_partner_regs ops op of
                        Inl e \<Rightarrow> Inl e
                      | Inr bs \<Rightarrow>
                          Inr (g1\<lparr>alloc_nodes := alloc_nodes g1 @ [carrier op],
                                 bp_edges := bp_edges g1 @
                                   (case bs of
                                      None \<Rightarrow> []
                                    | Some b \<Rightarrow> map (\<lambda>col. (length (alloc_nodes g1), col))
                                                 (bitset_foreach b))\<rparr>))))"

fun add_operands ::
  "nat \<Rightarrow> be_operand list \<Rightarrow> be_operand list \<Rightarrow> alloc_graph \<Rightarrow> chordal_error + alloc_graph" where
  "add_operands n ops [] g = Inr g"
| "add_operands n ops (op # rest) g =
     (case add_operand n ops op g of
        Inl e \<Rightarrow> Inl e
      | Inr g1 \<Rightarrow> add_operands n ops rest g1)"

text \<open>
  The loop that applies the matching, over the positions \<open>0 .. n_alloc - 1\<close>:
  \<open>assignment[i]\<close> is the register matched with node \<open>i\<close>, or negative. The register is
  set on the node and on its partner.
\<close>

fun apply_matching ::
  "alloc_graph \<Rightarrow> int list \<Rightarrow> nat list \<Rightarrow> (ir_node \<Rightarrow> nat option)
     \<Rightarrow> chordal_error + (ir_node \<Rightarrow> nat option)" where
  "apply_matching g assignment [] reg_map = Inr reg_map"
| "apply_matching g assignment (i # rest) reg_map =
     (if \<not> i < length assignment then Inl Bit_out_of_range
      else if \<not> assignment ! i \<ge> 0 then Inl No_register_assigned
      else (let reg = nat (assignment ! i);
                nd = alloc_nodes g ! i;
                r1 = (if nd \<noteq> 0 then reg_map(nd \<mapsto> reg) else reg_map);
                r2 = (case partners g nd of
                        Some (Some p) \<Rightarrow> r1(p \<mapsto> reg)
                      | _ \<Rightarrow> r1)
            in apply_matching g assignment rest r2))"

text \<open>
  Modelled from the spec: what \<open>bipartite_matching\<close> (bipartite.c is not among the
  sources) may answer. A node is matched only with a register it has an edge to; "every
  left node must receive a distinct right-side color; if not, allocation has failed".
\<close>

definition respects_edges :: "(nat \<times> nat) list \<Rightarrow> int list \<Rightarrow> bool" where
  "respects_edges edges assignment \<longleftrightarrow>
     (\<forall>i < length assignment. assignment ! i \<ge> 0 \<longrightarrow> (i, nat (assignment ! i)) \<in> set edges)"


definition empty_graph :: alloc_graph where
  "empty_graph = \<lparr>partners = (\<lambda>n. None), alloc_nodes = [], bp_edges = []\<rparr>"

text \<open>
  Operands over a class of three reg_map. In \<open>ex_ops\<close> the out operand (value \<open>50\<close>)
  and the in operand (value \<open>51\<close>) are partners; they share register \<open>1\<close>, but neither
  set of reg_map contains the other. In \<open>ex_ops_sub\<close> the reg_map of the out operand
  are among those of its partner, and a third operand has no partner.
\<close>

definition ex_ops :: "be_operand list" where
  "ex_ops = [\<lparr>carrier = 50, regs = [True, True, False], req_cls = 0, partner = Some 1\<rparr>,
             \<lparr>carrier = 51, regs = [False, True, True], req_cls = 0, partner = Some 0\<rparr>]"

definition ex_ops_sub :: "be_operand list" where
  "ex_ops_sub = [\<lparr>carrier = 50, regs = [True, False, False], req_cls = 0, partner = Some 1\<rparr>,
                 \<lparr>carrier = 51, regs = [True, True, False], req_cls = 0, partner = Some 0\<rparr>,
                 \<lparr>carrier = 52, regs = [False, False, True], req_cls = 0, partner = None\<rparr>]"

definition ex_graph :: alloc_graph where
  "ex_graph = \<lparr>partners = [50 \<mapsto> Some 51, 51 \<mapsto> Some 50], alloc_nodes = [50], bp_edges = []\<rparr>"

text \<open>
  The coloring walk. \<open>chordal_env\<close> holds what \<open>assign\<close> reads: the allocatable
  registers of the class, the liveness queries, the ignore flag and the border list of a
  block, whose entries are pairs of \<open>is_def\<close> and the value. \<open>assign_state\<close> holds what
  it writes: the color mask, the live values and the register of every value.
\<close>

record chordal_env =
  allocatable_regs :: bitset
  be_lv_in :: "ir_node \<Rightarrow> ir_node list"
  be_is_live_in :: "ir_node \<Rightarrow> ir_node \<Rightarrow> bool"
  consider_in_reg_alloc :: "ir_node \<Rightarrow> bool"
  arch_irn_is_ignore :: "ir_node \<Rightarrow> bool"
  get_block_border_head :: "ir_node \<Rightarrow> (bool \<times> ir_node) list"

record assign_state =
  colors :: bitset
  live :: "ir_node set"
  registers :: "ir_node \<Rightarrow> nat option"

definition get_next_free_reg :: "chordal_env \<Rightarrow> bitset \<Rightarrow> nat option" where
  "get_next_free_reg alloc_env cs =
     (let tmp = bitset_and (bitset_flip_all cs) (allocatable_regs alloc_env)
      in bitset_next_set tmp 0)"

text \<open>The loop of \<open>assign\<close> over the values that are live into the block.\<close>

fun assign_live_ins ::
  "chordal_env \<Rightarrow> ir_node list \<Rightarrow> assign_state \<Rightarrow> chordal_error + assign_state" where
  "assign_live_ins env [] st = Inr st"
| "assign_live_ins env (n # rest) st =
     (if consider_in_reg_alloc env n then
        (case registers st n of
           None \<Rightarrow> Inl Register_must_have_been_assigned
         | Some r \<Rightarrow>
             (case bitset_set (colors st) r of
                Inl e \<Rightarrow> Inl e
              | Inr c \<Rightarrow> assign_live_ins env rest (st\<lparr>colors := c, live := insert n (live st)\<rparr>)))
      else assign_live_ins env rest st)"

text \<open>The body of the loop of \<open>assign\<close> over the border list.\<close>

definition assign_border ::
  "chordal_env \<Rightarrow> ir_node \<Rightarrow> assign_state \<Rightarrow> bool \<times> ir_node \<Rightarrow> chordal_error + assign_state" where
  "assign_border env block st b =
     (let is_def = fst b; n = snd b in
      if \<not> is_def then
        (case registers st n of
           None \<Rightarrow> Inl Register_must_have_been_assigned
         | Some r \<Rightarrow>
             (case bitset_clear (colors st) r of
                Inl e \<Rightarrow> Inl e
              | Inr c \<Rightarrow> Inr (st\<lparr>colors := c, live := live st - {n}\<rparr>)))
      else if \<not> be_is_live_in env block n then
        (case (case registers st n of
                 Some col \<Rightarrow>
                   if bitset_is_set (colors st) col then Inl Precolored_register_not_free
                   else Inr (col, st)
               | None \<Rightarrow>
                   if arch_irn_is_ignore env n then Inl Value_is_ignore
                   else (case get_next_free_reg env (colors st) of
                           None \<Rightarrow> Inl No_free_register
                         | Some col \<Rightarrow> Inr (col, st\<lparr>registers := (registers st)(n \<mapsto> col)\<rparr>))) of
           Inl e \<Rightarrow> Inl e
         | Inr (col, st1) \<Rightarrow>
             (case bitset_set (colors st1) col of
                Inl e \<Rightarrow> Inl e
              | Inr c \<Rightarrow>
                  if n \<in> live st1 then Inl Def_already_encountered
                  else Inr (st1\<lparr>colors := c, live := insert n (live st1)\<rparr>)))
      else Inr st)"

fun assign_borders ::
  "chordal_env \<Rightarrow> ir_node \<Rightarrow> (bool \<times> ir_node) list \<Rightarrow> assign_state \<Rightarrow> chordal_error + assign_state" where
  "assign_borders env block [] st = Inr st"
| "assign_borders env block (b # rest) st =
     (case assign_border env block st b of
        Inl e \<Rightarrow> Inl e
      | Inr st1 \<Rightarrow> assign_borders env block rest st1)"

definition assign :: "chordal_env \<Rightarrow> assign_state \<Rightarrow> ir_node \<Rightarrow> chordal_error + assign_state" where
  "assign env st block =
     (let st0 = st\<lparr>colors := bitset_clear_all (colors st), live := {}\<rparr> in
      case assign_live_ins env (be_lv_in env block) st0 of
        Inl e \<Rightarrow> Inl e
      | Inr st1 \<Rightarrow> assign_borders env block (get_block_border_head env block) st1)"

text \<open>
  A block of the first scenario of the specification: three allocatable registers, the
  definitions of \<open>61\<close> and \<open>62\<close>, then their last uses.
\<close>

definition ex_chordal_env :: chordal_env where
  "ex_chordal_env = \<lparr>
     allocatable_regs = [True, True, True],
     be_lv_in = (\<lambda>b. []),
     be_is_live_in = (\<lambda>b n. False),
     consider_in_reg_alloc = (\<lambda>n. True),
     arch_irn_is_ignore = (\<lambda>n. False),
     get_block_border_head = (\<lambda>b. [(True, 61), (True, 62), (False, 61), (False, 62)]) \<rparr>"

definition ex_assign_state :: assign_state where
  "ex_assign_state = \<lparr>colors = [False, False, False], live = {}, registers = (\<lambda>n. None)\<rparr>"


definition ex_assign_state1 :: assign_state where
  "ex_assign_state1 = \<lparr>colors = [True, False, False], live = {61}, registers = [61 \<mapsto> 0]\<rparr>"

definition ex_assign_state2 :: assign_state where
  "ex_assign_state2 = \<lparr>colors = [True, True, False], live = {61, 62},
                        registers = [61 \<mapsto> 0, 62 \<mapsto> 1]\<rparr>"

definition ex_assign_state3 :: assign_state where
  "ex_assign_state3 = \<lparr>colors = [False, True, False], live = {62},
                        registers = [61 \<mapsto> 0, 62 \<mapsto> 1]\<rparr>"

section \<open>List scheduler (ir/be/belistsched.c)\<close>

text \<open>
  What the list scheduler reads of the graph: opcode tests, whether the mode of a node
  is a data mode, the inputs and dependencies of a node (\<open>get_irn_in_or_dep\<close>), the
  sources of its out edges, normal and dependency, in the order of the edge lists,
  \<open>skip_Proj\<close> and \<open>to_appear_in_schedule\<close>.
\<close>

record sched_graph = ir_graph +
  is_Block :: "ir_node \<Rightarrow> bool"
  is_End :: "ir_node \<Rightarrow> bool"
  is_Anchor :: "ir_node \<Rightarrow> bool"
  is_Sync :: "ir_node \<Rightarrow> bool"
  be_is_Start :: "ir_node \<Rightarrow> bool"
  be_is_Keep :: "ir_node \<Rightarrow> bool"
  be_is_CopyKeep :: "ir_node \<Rightarrow> bool"
  mode_is_datab :: "ir_node \<Rightarrow> bool"
  ins_or_deps :: "ir_node \<Rightarrow> ir_node list"
  out_edges :: "ir_node \<Rightarrow> ir_node list"
  dep_out_edges :: "ir_node \<Rightarrow> ir_node list"
  skip_Proj :: "ir_node \<Rightarrow> ir_node"
  to_appear_in_schedule :: "ir_node \<Rightarrow> bool"

text \<open>
  \<open>list_sched_selector_t\<close>, as far as a block is concerned, over the type of the
  selector's block environment. A callback that may be null is an option.
\<close>

record 'b list_sched_selector =
  init_block :: "(ir_node \<Rightarrow> 'b) option"
  node_ready :: "('b \<Rightarrow> ir_node \<Rightarrow> ir_node \<Rightarrow> 'b) option"
  select :: "'b \<Rightarrow> ir_node list \<Rightarrow> ir_node list \<Rightarrow> ir_node \<times> 'b"
  node_selected :: "('b \<Rightarrow> ir_node \<Rightarrow> 'b) option"
  finish_block :: "('b \<Rightarrow> 'b) option"

text \<open>
  \<open>block_sched_env_t\<close> with the scheduling info per node (\<open>sched_irn_t\<close>: the flag
  \<open>already_sched\<close> and the unsigned counter \<open>num_not_sched_user\<close>) and the schedule of
  the block, to which \<open>sched_add_before(block, nd)\<close> appends. The node sets \<open>cands\<close> and
  \<open>live\<close> are lists without duplicates; their order is the order of iteration.
\<close>

record 'b block_sched_env =
  already_sched :: "ir_node set"
  num_not_sched_user :: "ir_node \<Rightarrow> nat"
  cands :: "ir_node list"
  sched_live :: "ir_node list"
  sched_block :: ir_node
  sched_list :: "ir_node list"
  selector_block_env :: 'b

datatype sched_error = End_expected | Sched_out_of_fuel

definition ir_nodeset_insert :: "ir_node list \<Rightarrow> ir_node \<Rightarrow> ir_node list" where
  "ir_nodeset_insert s n = (if n \<in> set s then s else s @ [n])"

definition ir_nodeset_remove :: "ir_node list \<Rightarrow> ir_node \<Rightarrow> ir_node list" where
  "ir_nodeset_remove s n = removeAll n s"

text \<open>
  The loop of \<open>make_ready\<close> over the inputs and dependencies of \<open>nd\<close>: \<open>False\<close> is the
  early \<open>return 0\<close>.
\<close>

fun operands_scheduled ::
  "'a sched_graph_scheme \<Rightarrow> 'b block_sched_env \<Rightarrow> ir_node \<Rightarrow> ir_node list \<Rightarrow> sched_error + bool" where
  "operands_scheduled g env nd [] = Inr True"
| "operands_scheduled g env nd (op # rest) =
     (if is_Block g op then
        (if \<not> is_End g nd then Inl End_expected else operands_scheduled g env nd rest)
      else if op \<notin> already_sched env \<and> nodes_block g op = sched_block env then Inr False
      else operands_scheduled g env nd rest)"

text \<open>\<open>make_ready\<close>; its first argument stands for \<open>add_to_sched\<close>.\<close>

definition make_ready ::
  "('b block_sched_env \<Rightarrow> ir_node \<Rightarrow> sched_error + 'b block_sched_env)
     \<Rightarrow> 'a sched_graph_scheme \<Rightarrow> 'b list_sched_selector \<Rightarrow> 'b block_sched_env
     \<Rightarrow> ir_node \<Rightarrow> ir_node \<Rightarrow> sched_error + ('b block_sched_env \<times> bool)" where
  "make_ready rec g sel env pred nd =
     (if is_Block g nd \<or> length (out_edges g nd) = 0 then Inr (env, False)
      else if sched_block env \<noteq> nodes_block g nd then Inr (env, False)
      else (case operands_scheduled g env nd (ins_or_deps g nd) of
              Inl e \<Rightarrow> Inl e
            | Inr False \<Rightarrow> Inr (env, False)
            | Inr True \<Rightarrow>
                if \<not> to_appear_in_schedule g nd then
                  (case rec env nd of Inl e \<Rightarrow> Inl e | Inr env1 \<Rightarrow> Inr (env1, True))
                else
                  (let env1 = env\<lparr>cands := ir_nodeset_insert (cands env) nd\<rparr>;
                       env2 = (case node_ready sel of
                                 None \<Rightarrow> env1
                               | Some f \<Rightarrow> env1\<lparr>selector_block_env :=
                                            f (selector_block_env env1) nd pred\<rparr>)
                   in Inr (env2, True))))"

text \<open>\<open>make_users_ready\<close>: the loop over a list of users.\<close>

fun make_users_ready_loop ::
  "('b block_sched_env \<Rightarrow> ir_node \<Rightarrow> sched_error + 'b block_sched_env)
     \<Rightarrow> 'a sched_graph_scheme \<Rightarrow> 'b list_sched_selector \<Rightarrow> ir_node \<Rightarrow> ir_node list
     \<Rightarrow> 'b block_sched_env \<Rightarrow> sched_error + 'b block_sched_env" where
  "make_users_ready_loop rec g sel nd [] env = Inr env"
| "make_users_ready_loop rec g sel nd (user # rest) env =
     (if \<not> is_Phi g user then
        (case make_ready rec g sel env nd user of
           Inl e \<Rightarrow> Inl e
         | Inr (env1, _) \<Rightarrow> make_users_ready_loop rec g sel nd rest env1)
      else make_users_ready_loop rec g sel nd rest env)"

definition make_users_ready ::
  "('b block_sched_env \<Rightarrow> ir_node \<Rightarrow> sched_error + 'b block_sched_env)
     \<Rightarrow> 'a sched_graph_scheme \<Rightarrow> 'b list_sched_selector \<Rightarrow> 'b block_sched_env \<Rightarrow> ir_node
     \<Rightarrow> sched_error + 'b block_sched_env" where
  "make_users_ready rec g sel env nd =
     (case make_users_ready_loop rec g sel nd (out_edges g nd) env of
        Inl e \<Rightarrow> Inl e
      | Inr env1 \<Rightarrow> make_users_ready_loop rec g sel nd (dep_out_edges g nd) env1)"

text \<open>
  \<open>get_num_successors\<close>; the first argument bounds the nesting of tuple Projs it
  descends through.
\<close>

fun sum_options :: "nat option list \<Rightarrow> nat option" where
  "sum_options [] = Some 0"
| "sum_options (None # rest) = None"
| "sum_options (Some a # rest) = map_option (\<lambda>s. a + s) (sum_options rest)"

primrec get_num_successors :: "nat \<Rightarrow> 'a sched_graph_scheme \<Rightarrow> ir_node \<Rightarrow> nat option" where
  "get_num_successors 0 g nd = None"
| "get_num_successors (Suc depth) g nd =
     (if is_mode_T g nd then
        sum_options (map (\<lambda>proj. if is_mode_T g proj then get_num_successors depth g proj
                                  else if mode_is_datab g proj then Some (length (out_edges g proj))
                                  else Some 0)
                       (out_edges g nd))
      else Some (length (filter (\<lambda>src. \<not> is_End g src) (out_edges g nd))))"

text \<open>
  The counter of not yet scheduled users is an \<open>unsigned\<close>.
  \<open>add_irn_not_sched_user\<close> adds to it and returns it as an \<open>int\<close>.
\<close>

definition set_irn_not_sched_user ::
  "'b block_sched_env \<Rightarrow> ir_node \<Rightarrow> int \<Rightarrow> 'b block_sched_env" where
  "set_irn_not_sched_user env n num =
     env\<lparr>num_not_sched_user := (num_not_sched_user env)(n := nat (num mod 2 ^ 32))\<rparr>"

definition add_irn_not_sched_user ::
  "'b block_sched_env \<Rightarrow> ir_node \<Rightarrow> int \<Rightarrow> 'b block_sched_env \<times> int" where
  "add_irn_not_sched_user env n num =
     (let c = (int (num_not_sched_user env n) + num) mod 2 ^ 32
      in (env\<lparr>num_not_sched_user := (num_not_sched_user env)(n := nat c)\<rparr>,
          if c \<ge> 2 ^ 31 then c - 2 ^ 32 else c))"

text \<open>The loop of \<open>update_sched_liveness\<close> over the inputs, last input first.\<close>

fun update_inputs ::
  "'a sched_graph_scheme \<Rightarrow> ir_node list \<Rightarrow> 'b block_sched_env \<Rightarrow> 'b block_sched_env" where
  "update_inputs g [] env = env"
| "update_inputs g (inp # rest) env =
     (let n = skip_Proj g inp in
      if n \<in> set (sched_live env) then
        (let r = add_irn_not_sched_user env n (- 1) in
         if snd r \<le> 0
         then update_inputs g rest ((fst r)\<lparr>sched_live := ir_nodeset_remove (sched_live (fst r)) n\<rparr>)
         else update_inputs g rest (fst r))
      else update_inputs g rest env)"

definition update_sched_liveness ::
  "nat \<Rightarrow> 'a sched_graph_scheme \<Rightarrow> 'b block_sched_env \<Rightarrow> ir_node \<Rightarrow> sched_error + 'b block_sched_env" where
  "update_sched_liveness depth g env nd =
     (if is_Proj g nd then Inr env
      else (let env1 = update_inputs g (rev (ins_or_deps g nd)) env in
            case get_num_successors depth g nd of
              None \<Rightarrow> Inl Sched_out_of_fuel
            | Some i \<Rightarrow>
                if i > 0 then
                  (let env2 = set_irn_not_sched_user env1 nd (int i)
                   in Inr (env2\<lparr>sched_live := ir_nodeset_insert (sched_live env2) nd\<rparr>))
                else Inr env1))"

text \<open>The body of \<open>add_to_sched\<close>; \<open>rec\<close> is \<open>add_to_sched\<close> itself, reached through
  \<open>make_users_ready\<close> and \<open>make_ready\<close>.\<close>

definition add_to_sched_body ::
  "nat \<Rightarrow> ('b block_sched_env \<Rightarrow> ir_node \<Rightarrow> sched_error + 'b block_sched_env)
     \<Rightarrow> 'a sched_graph_scheme \<Rightarrow> 'b list_sched_selector \<Rightarrow> 'b block_sched_env \<Rightarrow> ir_node
     \<Rightarrow> sched_error + 'b block_sched_env" where
  "add_to_sched_body depth rec g sel env nd =
     (case (if to_appear_in_schedule g nd then
              (case update_sched_liveness depth g env nd of
                 Inl e \<Rightarrow> Inl e
               | Inr env1 \<Rightarrow> Inr (env1\<lparr>sched_list := sched_list env1 @ [nd],
                                     cands := ir_nodeset_remove (cands env1) nd\<rparr>))
            else Inr env) of
        Inl e \<Rightarrow> Inl e
      | Inr env2 \<Rightarrow>
          (let env3 = (case node_selected sel of
                         None \<Rightarrow> env2
                       | Some f \<Rightarrow> env2\<lparr>selector_block_env := f (selector_block_env env2) nd\<rparr>);
               env4 = env3\<lparr>already_sched := insert nd (already_sched env3)\<rparr>
           in make_users_ready rec g sel env4 nd))"

text \<open>
  \<open>add_to_sched\<close>. It calls itself, through \<open>make_ready\<close>, for a user that does not
  appear in the schedule; the first argument bounds the depth of these calls (and the
  descent of \<open>get_num_successors\<close>).
\<close>

primrec add_to_sched ::
  "nat \<Rightarrow> 'a sched_graph_scheme \<Rightarrow> 'b list_sched_selector \<Rightarrow> 'b block_sched_env \<Rightarrow> ir_node
     \<Rightarrow> sched_error + 'b block_sched_env" where
  "add_to_sched 0 g sel env nd = Inl Sched_out_of_fuel"
| "add_to_sched (Suc fuel) g sel env nd =
     add_to_sched_body (Suc fuel) (add_to_sched fuel g sel) g sel env nd"


text \<open>
  The loop of \<open>list_sched_block\<close> over the operands of a node that is neither a Phi nor
  the Start node: the node is ready when no operand is in the block; the operands seen
  before the loop ends enter the live set.
\<close>

fun seed_operands ::
  "'a sched_graph_scheme \<Rightarrow> ir_node \<Rightarrow> ir_node list \<Rightarrow> ir_node list \<Rightarrow> bool \<times> ir_node list" where
  "seed_operands g blk [] lv = (True, lv)"
| "seed_operands g blk (operand # rest) lv =
     (if nodes_block g operand = blk then (False, lv)
      else seed_operands g blk rest (ir_nodeset_insert lv operand))"

text \<open>The body of the loop of \<open>list_sched_block\<close> over the nodes of the block.\<close>

definition seed_node ::
  "nat \<Rightarrow> 'a sched_graph_scheme \<Rightarrow> 'b list_sched_selector \<Rightarrow> 'b block_sched_env \<Rightarrow> ir_node
     \<Rightarrow> sched_error + 'b block_sched_env" where
  "seed_node fuel g sel env nd =
     (if is_End g nd then Inr env
      else if length (out_edges g nd) = 0 then Inr env
      else if length (out_edges g nd) = 1 \<and> is_Anchor g (hd (out_edges g nd)) then Inr env
      else if is_Phi g nd then add_to_sched fuel g sel env nd
      else if be_is_Start g nd then add_to_sched fuel g sel env nd
      else (let r = seed_operands g (sched_block env) (ins_or_deps g nd) (sched_live env);
                env1 = env\<lparr>sched_live := snd r\<rparr>
            in if fst r then
                 (case make_ready (add_to_sched fuel g sel) g sel env1 0 nd of
                    Inl e \<Rightarrow> Inl e
                  | Inr (env2, _) \<Rightarrow> Inr env2)
               else Inr env1))"

fun seed_nodes ::
  "nat \<Rightarrow> 'a sched_graph_scheme \<Rightarrow> 'b list_sched_selector \<Rightarrow> ir_node list \<Rightarrow> 'b block_sched_env
     \<Rightarrow> sched_error + 'b block_sched_env" where
  "seed_nodes fuel g sel [] env = Inr env"
| "seed_nodes fuel g sel (nd # rest) env =
     (case seed_node fuel g sel env nd of
        Inl e \<Rightarrow> Inl e
      | Inr env1 \<Rightarrow> seed_nodes fuel g sel rest env1)"

text \<open>
  The choice made in an iteration of the main loop: the first Keep, CopyKeep or Sync
  among the candidates, else what the selector returns.
\<close>

definition pick_node ::
  "'a sched_graph_scheme \<Rightarrow> 'b list_sched_selector \<Rightarrow> 'b block_sched_env
     \<Rightarrow> ir_node \<times> 'b block_sched_env" where
  "pick_node g sel env =
     (case find (\<lambda>n. be_is_Keep g n \<or> be_is_CopyKeep g n \<or> is_Sync g n) (cands env) of
        Some n \<Rightarrow> (n, env)
      | None \<Rightarrow>
          (let r = select sel (selector_block_env env) (cands env) (sched_live env)
           in (fst r, env\<lparr>selector_block_env := snd r\<rparr>)))"

text \<open>The main loop; the first argument bounds the number of its iterations.\<close>

primrec sched_loop ::
  "nat \<Rightarrow> nat \<Rightarrow> 'a sched_graph_scheme \<Rightarrow> 'b list_sched_selector \<Rightarrow> 'b block_sched_env
     \<Rightarrow> sched_error + 'b block_sched_env" where
  "sched_loop 0 fuel g sel env = (if cands env = [] then Inr env else Inl Sched_out_of_fuel)"
| "sched_loop (Suc iters) fuel g sel env =
     (if cands env = [] then Inr env
      else (let p = pick_node g sel env in
            case add_to_sched fuel g sel (snd p) (fst p) of
              Inl e \<Rightarrow> Inl e
            | Inr env1 \<Rightarrow>
                sched_loop iters fuel g sel
                  (env1\<lparr>cands := ir_nodeset_remove (cands env1) (fst p)\<rparr>)))"

text \<open>
  \<open>list_sched_block\<close>. \<open>env0\<close> holds the scheduling info of the graph as the blocks
  scheduled before have left it (and whatever the block environment of the selector is
  when the selector has no \<open>init_block\<close>).
\<close>

definition list_sched_block ::
  "nat \<Rightarrow> nat \<Rightarrow> 'a sched_graph_scheme \<Rightarrow> 'b list_sched_selector \<Rightarrow> 'b block_sched_env
     \<Rightarrow> ir_node \<Rightarrow> sched_error + 'b block_sched_env" where
  "list_sched_block iters fuel g sel env0 blk =
     (let be = env0\<lparr>sched_list := [], cands := [], sched_live := [], sched_block := blk,
                    selector_block_env := (case init_block sel of
                                             None \<Rightarrow> selector_block_env env0
                                           | Some f \<Rightarrow> f blk)\<rparr>
      in case seed_nodes fuel g sel (out_edges g blk) be of
           Inl e \<Rightarrow> Inl e
         | Inr env1 \<Rightarrow>
             (case sched_loop iters fuel g sel env1 of
                Inl e \<Rightarrow> Inl e
              | Inr env2 \<Rightarrow>
                  Inr (case finish_block sel of
                         None \<Rightarrow> env2
                       | Some f \<Rightarrow> env2\<lparr>selector_block_env := f (selector_block_env env2)\<rparr>)))"

text \<open>
  The position of a node in a schedule (the length of the schedule for a node that is
  not in it), and "the schedule respects the DAG" as the specification states it: every
  operand in the same block has a smaller index.
\<close>

definition schedule_index :: "ir_node list \<Rightarrow> ir_node \<Rightarrow> nat" where
  "schedule_index sl n = length (takeWhile (\<lambda>x. x \<noteq> n) sl)"

definition respects_dag_spec :: "'a sched_graph_scheme \<Rightarrow> ir_node \<Rightarrow> ir_node list \<Rightarrow> bool" where
  "respects_dag_spec g blk sl \<longleftrightarrow>
     (\<forall>nd \<in> set sl. \<forall>u \<in> set (ins_or_deps g nd).
        nodes_block g u = blk \<longrightarrow> schedule_index sl u < schedule_index sl nd)"

text \<open>
  \<open>scheduled_before g blk sl i u\<close>: the node \<open>u\<close> is there for the node at position \<open>i\<close> of
  the schedule \<open>sl\<close>. A node that appears in the schedule has an index below \<open>i\<close>. A
  node that does not appear in the schedule (a Proj of a tuple node, say) is never in
  the list: all of its own operands and dependencies in the block have to be there for
  position \<open>i\<close>, in the same sense. Only a Phi that does not appear in the schedule
  needs nothing.
\<close>

inductive scheduled_before ::
  "'a sched_graph_scheme \<Rightarrow> ir_node \<Rightarrow> ir_node list \<Rightarrow> nat \<Rightarrow> ir_node \<Rightarrow> bool"
  for g blk sl i where
  in_schedule:
    "to_appear_in_schedule g u \<Longrightarrow> schedule_index sl u < i \<Longrightarrow> scheduled_before g blk sl i u"
| hidden_Phi:
    "\<not> to_appear_in_schedule g u \<Longrightarrow> is_Phi g u \<Longrightarrow> scheduled_before g blk sl i u"
| hidden:
    "\<not> to_appear_in_schedule g u \<Longrightarrow> \<not> is_Phi g u \<Longrightarrow>
     (\<forall>v \<in> set (ins_or_deps g u).
        \<not> is_Block g v \<and> nodes_block g v = blk \<longrightarrow> scheduled_before g blk sl i v) \<Longrightarrow>
     scheduled_before g blk sl i u"

text \<open>
  "The schedule respects the DAG", for every node of the schedule but the Phis: each
  operand and dependency of the node at position \<open>i\<close> that is not a Block and lives in
  the block is scheduled before position \<open>i\<close>.
\<close>

definition respects_dag :: "'a sched_graph_scheme \<Rightarrow> ir_node \<Rightarrow> ir_node list \<Rightarrow> bool" where
  "respects_dag g blk sl \<longleftrightarrow>
     (\<forall>i < length sl. \<not> is_Phi g (sl ! i) \<longrightarrow>
        (\<forall>u \<in> set (ins_or_deps g (sl ! i)).
           \<not> is_Block g u \<and> nodes_block g u = blk \<longrightarrow> scheduled_before g blk sl i u))"

text \<open>
  What \<open>make_ready\<close> checks: every operand and dependency of \<open>nd\<close> that is not a Block
  and lives in the block is marked as scheduled.
\<close>

definition operands_ready :: "'a sched_graph_scheme \<Rightarrow> ir_node \<Rightarrow> ir_node set \<Rightarrow> ir_node \<Rightarrow> bool" where
  "operands_ready g blk done nd \<longleftrightarrow>
     (\<forall>u \<in> set (ins_or_deps g nd). \<not> is_Block g u \<and> nodes_block g u = blk \<longrightarrow> u \<in> done)"

text \<open>The contract of the selector: "\<open>select\<close> must return a member of the ready set".\<close>

definition selects_candidate :: "'b list_sched_selector \<Rightarrow> bool" where
  "selects_candidate sel \<longleftrightarrow> (\<forall>b c l. c \<noteq> [] \<longrightarrow> fst (select sel b c l) \<in> set c)"

text \<open>
  A Start node has no operands. What this asks of the graph: a Start node among the
  nodes of the block has no operand or dependency, other than a Block, in the block.
\<close>

definition start_has_no_operand :: "'a sched_graph_scheme \<Rightarrow> ir_node \<Rightarrow> bool" where
  "start_has_no_operand g blk \<longleftrightarrow>
     (\<forall>n \<in> set (out_edges g blk). be_is_Start g n \<longrightarrow> operands_ready g blk {} n)"

text \<open>
  A block with a tuple node: block \<open>20\<close> holds the Phi \<open>21 = Phi(30, 25)\<close>, the tuple node
  \<open>22 = Load(21)\<close>, its result \<open>23 = Proj(22)\<close>, which does not appear in the schedule,
  \<open>24 = Add(23, 31)\<close> and \<open>25 = Add(24, 21)\<close>; \<open>30\<close> and \<open>31\<close> live in block \<open>10\<close>, and \<open>25\<close>
  has a second user, \<open>40\<close>, in block \<open>50\<close>. The out edges of the block list its nodes last
  node first. The selector takes the first candidate.
\<close>

definition ex_sched_graph :: sched_graph where
  "ex_sched_graph = \<lparr>
     is_Phi = (\<lambda>n. n = 21),
     is_Proj = (\<lambda>n. n = 23),
     is_mode_T = (\<lambda>n. n = 22),
     nodes_block = (\<lambda>n. if 21 \<le> n \<and> n \<le> 25 then 20 else if n = 40 then 50 else 10),
     is_Block = (\<lambda>n. n = 10 \<or> n = 20 \<or> n = 50),
     is_End = (\<lambda>n. False),
     is_Anchor = (\<lambda>n. False),
     is_Sync = (\<lambda>n. False),
     be_is_Start = (\<lambda>n. False),
     be_is_Keep = (\<lambda>n. False),
     be_is_CopyKeep = (\<lambda>n. False),
     mode_is_datab = (\<lambda>n. True),
     ins_or_deps = (\<lambda>n. if n = 21 then [30, 25] else if n = 22 then [21]
                         else if n = 23 then [22] else if n = 24 then [23, 31]
                         else if n = 25 then [24, 21] else if n = 40 then [25] else []),
     out_edges = (\<lambda>n. if n = 20 then [25, 24, 23, 22, 21] else if n = 21 then [22, 25]
                       else if n = 22 then [23] else if n = 23 then [24]
                       else if n = 24 then [25] else if n = 25 then [21, 40]
                       else if n = 30 then [21] else if n = 31 then [24] else []),
     dep_out_edges = (\<lambda>n. []),
     skip_Proj = (\<lambda>n. if n = 23 then 22 else n),
     to_appear_in_schedule = (\<lambda>n. \<not> (n = 10 \<or> n = 20 \<or> n = 50 \<or> n = 23)) \<rparr>"

definition ex_selector :: "unit list_sched_selector" where
  "ex_selector = \<lparr>init_block = None, node_ready = None,
                   select = (\<lambda>b c l. (hd c, b)),
                   node_selected = None, finish_block = None\<rparr>"

definition ex_sched_env :: "unit block_sched_env" where
  "ex_sched_env = \<lparr>already_sched = {}, num_not_sched_user = (\<lambda>n. 0), cands = [],
                    sched_live = [], sched_block = 0, sched_list = [], selector_block_env = ()\<rparr>"

text \<open>
  A block that is its own predecessor, with a Phi whose operand lives in the block:
  block \<open>20\<close> holds \<open>21 = Phi(30, 22)\<close> and \<open>22 = Add(31, 32)\<close>; \<open>30\<close>, \<open>31\<close> and \<open>32\<close> live in
  block \<open>10\<close>, and the user \<open>40\<close> of \<open>21\<close> in block \<open>50\<close>. The operands inside the block form
  a DAG: \<open>21\<close> uses \<open>22\<close>, and \<open>22\<close> uses nothing of the block.
\<close>

definition ex_phi_graph :: sched_graph where
  "ex_phi_graph = \<lparr>
     is_Phi = (\<lambda>n. n = 21),
     is_Proj = (\<lambda>n. False),
     is_mode_T = (\<lambda>n. False),
     nodes_block = (\<lambda>n. if n = 21 \<or> n = 22 then 20 else if n = 40 then 50 else 10),
     is_Block = (\<lambda>n. n = 10 \<or> n = 20 \<or> n = 50),
     is_End = (\<lambda>n. False),
     is_Anchor = (\<lambda>n. False),
     is_Sync = (\<lambda>n. False),
     be_is_Start = (\<lambda>n. False),
     be_is_Keep = (\<lambda>n. False),
     be_is_CopyKeep = (\<lambda>n. False),
     mode_is_datab = (\<lambda>n. True),
     ins_or_deps = (\<lambda>n. if n = 21 then [30, 22] else if n = 22 then [31, 32]
                         else if n = 40 then [21] else []),
     out_edges = (\<lambda>n. if n = 20 then [22, 21] else if n = 21 then [40]
                       else if n = 22 then [21] else if n = 30 then [21] else if n = 31 then [22]
                       else if n = 32 then [22] else []),
     dep_out_edges = (\<lambda>n. []),
     skip_Proj = (\<lambda>n. n),
     to_appear_in_schedule = (\<lambda>n. \<not> (n = 10 \<or> n = 20 \<or> n = 50)) \<rparr>"

text \<open>
  What holds between two calls of the scheduler's functions on a block: every candidate
  has its operands marked, the schedule so far respects the DAG, and every marked node
  of the block is scheduled before the end of the schedule so far.
\<close>

definition sched_inv :: "'a sched_graph_scheme \<Rightarrow> ir_node \<Rightarrow> 'b block_sched_env \<Rightarrow> bool" where
  "sched_inv g blk env \<longleftrightarrow>
     sched_block env = blk
     \<and> (\<forall>n \<in> set (cands env). operands_ready g blk (already_sched env) n)
     \<and> respects_dag g blk (sched_list env)
     \<and> (\<forall>u \<in> already_sched env.
           nodes_block g u = blk
             \<longrightarrow> scheduled_before g blk (sched_list env) (length (sched_list env)) u)"

section \<open>Properties\<close>

subsection \<open>Working sets\<close>

lemma workset_insert_cases:
  assumes "workset_insert env w val = Inr w'"
  shows "w' = w \<or>
         (workset_vals w' = workset_vals w @ [val] \<and> val \<notin> set (workset_vals w) \<and>
          arch_irn_consider_in_reg_alloc env val \<and>
          len w' = len w + 1 \<and> len w < n_regs env \<and> length (vals w') = length (vals w))"
  using assms
  by (auto simp: workset_insert_def workset_vals_def take_Suc_conv_app_nth
           split: if_splits)

lemma workset_insert_twice:
  "bind_err (workset_insert env w val) (\<lambda>w'. workset_insert env w' val) = workset_insert env w val"
  by (auto simp: workset_insert_def bind_err_def workset_vals_def take_Suc_conv_app_nth)

text \<open>
  C9. \<open>workset_insert\<close> is idempotent and keeps a workset free of duplicates: inserting a
  value that is already contained, or that belongs to another register class, or that is
  ignored, returns the workset as it was (length and contents); inserting the same value
  twice is inserting it once; and a workset without duplicates has none after an insert.
\<close>

theorem workset_insert_idempotent:
  "(val \<in> set (workset_vals w) \<or> irn_cls env val \<noteq> cls env \<or> flags_ignore env val
      \<longrightarrow> workset_insert env w val = Inr w)
   \<and> bind_err (workset_insert env w val) (\<lambda>w'. workset_insert env w' val)
       = workset_insert env w val
   \<and> (distinct (workset_vals w) \<and> workset_insert env w val = Inr w'
        \<longrightarrow> distinct (workset_vals w'))"
proof (intro conjI impI)
  assume "val \<in> set (workset_vals w) \<or> irn_cls env val \<noteq> cls env \<or> flags_ignore env val"
  then show "workset_insert env w val = Inr w"
    by (auto simp: workset_insert_def arch_irn_consider_in_reg_alloc_def)
next
  show "bind_err (workset_insert env w val) (\<lambda>w'. workset_insert env w' val)
       = workset_insert env w val" by (rule workset_insert_twice)
next
  assume a: "distinct (workset_vals w) \<and> workset_insert env w val = Inr w'"
  then show "distinct (workset_vals w')"
    using workset_insert_cases[of env w val w'] by auto
qed

theorem workset_insert_idempotent_witness:
  "5 \<in> set (workset_vals ex_ws) \<and> workset_insert ex_env ex_ws 5 = Inr ex_ws
   \<and> flags_ignore ex_env 11 \<and> workset_insert ex_env ex_ws 11 = Inr ex_ws
   \<and> distinct (workset_vals ex_ws)
   \<and> workset_insert ex_env ex_ws 6
       = Inr \<lparr>len = 2, vals = [\<lparr>irn = 5, time = 0\<rparr>, \<lparr>irn = 6, time = 0\<rparr>]\<rparr>
   \<and> distinct (workset_vals \<lparr>len = 2, vals = [\<lparr>irn = 5, time = 0\<rparr>, \<lparr>irn = 6, time = 0\<rparr>]\<rparr>)"
proof -
  have m: "5 \<in> set (workset_vals ex_ws)" and d: "distinct (workset_vals ex_ws)"
    by (simp_all add: ex_ws_def workset_vals_def)
  have i: "flags_ignore ex_env 11" by (simp add: ex_env_def)
  have s: "workset_insert ex_env ex_ws 6
             = Inr \<lparr>len = 2, vals = [\<lparr>irn = 5, time = 0\<rparr>, \<lparr>irn = 6, time = 0\<rparr>]\<rparr>"
    by (simp add: workset_insert_def ex_env_def ex_ws_def workset_vals_def
          arch_irn_consider_in_reg_alloc_def)
  from m d i s
    workset_insert_idempotent[of 5 ex_ws ex_env]
    workset_insert_idempotent[of 11 ex_ws ex_env]
    workset_insert_idempotent[of 6 ex_ws ex_env
      "\<lparr>len = 2, vals = [\<lparr>irn = 5, time = 0\<rparr>, \<lparr>irn = 6, time = 0\<rparr>]\<rparr>"]
  show ?thesis by blast
qed

subsection \<open>displace\<close>

lemma bind_err_Inr_iff:
  "bind_err r f = Inr y \<longleftrightarrow> (\<exists>x. r = Inr x \<and> f x = Inr y)"
  by (cases r) (auto simp: bind_err_def)

lemma bind_err_Inl_iff:
  "bind_err r f = Inl e \<longleftrightarrow> r = Inl e \<or> (\<exists>x. r = Inr x \<and> f x = Inl e)"
  by (cases r) (auto simp: bind_err_def)

lemma bind_err_simps [simp]:
  "bind_err (Inl e) f = Inl e" "bind_err (Inr x) f = f x"
  by (simp_all add: bind_err_def)

lemma workset_insert_keeps:
  assumes "workset_insert env w val = Inr w'"
  shows "take (len w) (vals w') = take (len w) (vals w) \<and> len w \<le> len w' \<and> len w' \<le> len w + 1
         \<and> length (vals w') = length (vals w) \<and> (len w \<le> n_regs env \<longrightarrow> len w' \<le> n_regs env)
         \<and> (\<exists>added. workset_vals w' = workset_vals w @ added \<and> set added \<subseteq> {val})"
  using assms
  by (auto simp: workset_insert_def workset_vals_def take_Suc_conv_app_nth split: if_splits)


lemma insert_all_keeps:
  "insert_all env w vs = Inr w' \<Longrightarrow>
     take (len w) (vals w') = take (len w) (vals w) \<and> len w \<le> len w'
     \<and> len w' \<le> len w + length vs
     \<and> length (vals w') = length (vals w) \<and> (len w \<le> n_regs env \<longrightarrow> len w' \<le> n_regs env)
     \<and> (\<exists>added. workset_vals w' = workset_vals w @ added \<and> set added \<subseteq> set vs)"
proof (induction vs arbitrary: w)
  case Nil
  then show ?case by simp
next
  case (Cons v vs)
  from Cons.prems obtain w1 where w1: "workset_insert env w v = Inr w1"
    and r: "insert_all env w1 vs = Inr w'"
    by (auto simp: bind_err_Inr_iff)
  note k1 = workset_insert_keeps[OF w1]
  note k2 = Cons.IH[OF r]
  from k1 have le: "len w \<le> len w1" by simp
  have "take (len w) (vals w') = take (len w) (take (len w1) (vals w'))"
    using le by (simp add: min.absorb2)
  also have "\<dots> = take (len w) (take (len w1) (vals w1))" using k2 by simp
  also have "\<dots> = take (len w) (vals w1)" using le by (simp add: min.absorb2)
  also have "\<dots> = take (len w) (vals w)" using k1 by simp
  finally have t: "take (len w) (vals w') = take (len w) (vals w)" .
  from k1 obtain a1 where a1: "workset_vals w1 = workset_vals w @ a1" "set a1 \<subseteq> {v}" by blast
  from k2 obtain a2 where a2: "workset_vals w' = workset_vals w1 @ a2" "set a2 \<subseteq> set vs" by blast
  have x: "\<exists>added. workset_vals w' = workset_vals w @ added \<and> set added \<subseteq> set (v # vs)"
  proof (intro exI conjI)
    show "workset_vals w' = workset_vals w @ (a1 @ a2)" using a1 a2 by simp
    show "set (a1 @ a2) \<subseteq> set (v # vs)" using a1 a2 by auto
  qed
  have l1: "len w \<le> len w'" using k1 k2 by linarith
  have l2: "len w' \<le> len w + length (v # vs)" using k1 k2 by simp
  have l3: "length (vals w') = length (vals w)" using k1 k2 by simp
  have l4: "len w \<le> n_regs env \<longrightarrow> len w' \<le> n_regs env" using k1 k2 by blast
  from t x l1 l2 l3 l4 show ?case by blast
qed


lemma displace_demand_keeps:
  "displace_demand env u vs st ti = Inr (st1, ti') \<Longrightarrow>
     ws st1 = ws st \<and> info st1 = info st \<and> instr st1 = instr st \<and> instr_nr st1 = instr_nr st
     \<and> spilled_phis st1 = spilled_phis st \<and> edge_reloads st1 = edge_reloads st
     \<and> (length ti \<le> n_regs env \<longrightarrow> length ti' \<le> n_regs env)
     \<and> (\<exists>added. ti' = ti @ added \<and> set added \<subseteq> set vs - set (workset_vals (ws st)))"
proof (induction vs arbitrary: st ti)
  case Nil
  then show ?case by simp
next
  case (Cons v vs)
  define st0 where "st0 = (if u then st\<lparr>used := insert v (used st)\<rparr> else st)"
  have e0: "ws st0 = ws st" "info st0 = info st" "instr st0 = instr st" "instr_nr st0 = instr_nr st"
    "spilled_phis st0 = spilled_phis st" "edge_reloads st0 = edge_reloads st"
    by (simp_all add: st0_def)
  show ?case
  proof (cases "workset_contains (ws st) v")
    case True
    with Cons.prems have "displace_demand env u vs st0 ti = Inr (st1, ti')"
      by (simp add: Let_def str_literal_def st0_def e0 split: if_splits)
    from Cons.IH[OF this] e0 show ?thesis by auto
  next
    case False
    define st2 where "st2 = (if u then be_add_reload st0 v (instr st0) else st0)"
    have e2: "ws st2 = ws st" "info st2 = info st" "instr st2 = instr st" "instr_nr st2 = instr_nr st"
      "spilled_phis st2 = spilled_phis st" "edge_reloads st2 = edge_reloads st"
      by (simp_all add: st2_def e0 be_add_reload_def)
    from False Cons.prems have lt: "length ti < n_regs env"
      by (simp add: Let_def split: if_splits)
    from False Cons.prems lt have r: "displace_demand env u vs st2 (ti @ [v]) = Inr (st1, ti')"
      by (simp add: Let_def st0_def st2_def split: if_splits)
    from Cons.IH[OF r] obtain added where
      a: "ti' = (ti @ [v]) @ added" "set added \<subseteq> set vs - set (workset_vals (ws st))"
      by (auto simp: e2)
    have x: "\<exists>added. ti' = ti @ added \<and> set added \<subseteq> set (v # vs) - set (workset_vals (ws st))"
    proof (intro exI conjI)
      show "ti' = ti @ (v # added)" using a by simp
      show "set (v # added) \<subseteq> set (v # vs) - set (workset_vals (ws st))"
        using a False by (auto simp: workset_contains_def)
    qed
    from Cons.IH[OF r] lt have "length ti' \<le> n_regs env" by simp
    with Cons.IH[OF r] e2 x show ?thesis by simp
  qed
qed


lemma set_times_keeps:
  "set_times env st u ls = Inr ls' \<Longrightarrow>
     map irn ls' = map irn ls
     \<and> (\<forall>l\<in>set ls'. get_distance env (instr st) (instr_nr st) (irn l) (\<not> u) = Inr (time l))"
proof (induction ls arbitrary: ls')
  case Nil
  then show ?case by simp
next
  case (Cons l ls)
  from Cons.prems obtain t r where t: "get_distance env (instr st) (instr_nr st) (irn l) (\<not> u) = Inr t"
    and r: "set_times env st u ls = Inr r" and e: "ls' = l\<lparr>time := t\<rparr> # r"
    by (auto simp: bind_err_Inr_iff)
  from Cons.IH[OF r] t e show ?case by simp
qed

lemma dispose_keeps:
  "dispose env vs st = Inr st' \<Longrightarrow>
     ws st' = ws st \<and> instr st' = instr st \<and> instr_nr st' = instr_nr st \<and> used st' = used st
     \<and> reloads st' = reloads st \<and> edge_reloads st' = edge_reloads st
     \<and> (\<forall>b. map_option ws_end (info st' b) = map_option ws_end (info st b))"
proof (induction vs arbitrary: st)
  case Nil
  then show ?case by simp
next
  case (Cons v vs)
  show ?case
  proof (cases "v \<in> used st")
    case True
    with Cons show ?thesis by simp
  next
    case False
    define cb where "cb = nodes_block env (instr st)"
    from False Cons.prems obtain bi start where bi: "info st cb = Some bi"
      and start: "ws_start bi = Some start"
      by (auto simp: Let_def cb_def split: option.splits)
    define st1 where "st1 = st\<lparr>info := (info st)(cb \<mapsto> bi\<lparr>ws_start := Some (workset_remove start v)\<rparr>)\<rparr>"
    define st2 where "st2 = (if is_Phi env v then be_spill_phi st1 v else st1)"
    from False Cons.prems bi start have r: "dispose env vs st2 = Inr st'"
      by (auto simp add: Let_def cb_def[symmetric] st1_def st2_def)
    have e: "ws st2 = ws st" "instr st2 = instr st" "instr_nr st2 = instr_nr st"
      "used st2 = used st" "reloads st2 = reloads st" "edge_reloads st2 = edge_reloads st"
      "info st2 = (info st)(cb \<mapsto> bi\<lparr>ws_start := Some (workset_remove start v)\<rparr>)"
      by (simp_all add: st2_def st1_def be_spill_phi_def)
    have "\<forall>b. map_option ws_end (info st2 b) = map_option ws_end (info st b)"
      using bi by (simp add: e)
    with Cons.IH[OF r] e show ?thesis by simp
  qed
qed


lemma workset_insert_err:
  "workset_insert env w v = Inl e \<Longrightarrow> e = Workset_already_full \<or> e = Out_of_bounds"
  by (auto simp: workset_insert_def split: if_splits)

lemma insert_all_err:
  "insert_all env w vs = Inl e \<Longrightarrow> e = Workset_already_full \<or> e = Out_of_bounds"
proof (induction vs arbitrary: w)
  case Nil
  then show ?case by simp
next
  case (Cons v vs)
  then show ?case
    by (auto simp: bind_err_Inl_iff dest: workset_insert_err)
qed

lemma get_distance_err:
  "get_distance env f s d k = Inl e \<Longrightarrow> e = Ignore_flag_set"
  by (auto simp: get_distance_def Let_def split: if_splits)

lemma set_times_err:
  "set_times env st u ls = Inl e \<Longrightarrow> e = Ignore_flag_set"
proof (induction ls)
  case Nil
  then show ?case by simp
next
  case (Cons l ls)
  then show ?case
    by (auto simp: bind_err_Inl_iff dest: get_distance_err)
qed

lemma dispose_err:
  "dispose env vs st = Inl e \<Longrightarrow> e = Null_deref"
proof (induction vs arbitrary: st)
  case Nil
  then show ?case by simp
next
  case (Cons v vs)
  then show ?case
    by (auto simp: Let_def split: if_splits option.splits)
qed

lemma displace_demand_err:
  "displace_demand env u vs st ti = Inl e \<Longrightarrow> e = Out_of_bounds"
proof (induction vs arbitrary: st ti)
  case Nil
  then show ?case by simp
next
  case (Cons v vs)
  then show ?case
    by (auto simp: Let_def str_literal_def split: if_splits)
qed

lemma make_room_err:
  "make_room env st u m = Inl e \<Longrightarrow> e = Ignore_flag_set \<or> e = Null_deref"
  by (auto simp: make_room_def bind_err_Inl_iff Let_def dest: set_times_err dispose_err)

lemma displace_err:
  "displace env st nv u = Inl e \<Longrightarrow>
     e = Out_of_bounds \<or> e = Ignore_flag_set \<or> e = Null_deref \<or> e = Workset_already_full"
  by (auto simp: displace_def bind_err_Inl_iff Let_def split: if_splits
           dest: displace_demand_err make_room_err insert_all_err)


lemma sorts_by_timeD:
  "sorts_by_time qs \<Longrightarrow> mset (qs xs) = mset xs \<and> sorted (map time (qs xs)) \<and> length (qs xs) = length xs"
  by (auto simp: sorts_by_time_def dest: mset_eq_length)

lemma set_times_length:
  "set_times env st u ls = Inr ls' \<Longrightarrow> length ls' = length ls"
  using set_times_keeps[of env st u ls ls'] by (metis length_map)

lemma make_room_result:
  assumes mr: "make_room env st u m = Inr st2"
    and wf: "len (ws st) \<le> length (vals (ws st))"
  shows "\<exists>stamped. set_times env st u (take (len (ws st)) (vals (ws st))) = Inr stamped
     \<and> length stamped = len (ws st)
     \<and> len (ws st2) = m
     \<and> vals (ws st2) = loc_qsort env stamped @ drop (len (ws st)) (vals (ws st))
     \<and> dispose env (drop m (map irn (take (len (ws st)) (loc_qsort env stamped @ drop (len (ws st)) (vals (ws st))))))
          (st\<lparr>ws := (ws st)\<lparr>vals := loc_qsort env stamped @ drop (len (ws st)) (vals (ws st))\<rparr>\<rparr>)
         = Inr (st2\<lparr>ws := (ws st)\<lparr>vals := loc_qsort env stamped @ drop (len (ws st)) (vals (ws st))\<rparr>\<rparr>)"
proof -
  from mr obtain stamped where s: "set_times env st u (take (len (ws st)) (vals (ws st))) = Inr stamped"
    by (auto simp: make_room_def bind_err_Inr_iff)
  from set_times_length[OF s] wf have l: "length stamped = len (ws st)" by simp
  define w2 where "w2 = (ws st)\<lparr>vals := loc_qsort env stamped @ drop (len (ws st)) (vals (ws st))\<rparr>"
  have ws2: "workset_sort env ((ws st)\<lparr>vals := stamped @ drop (len (ws st)) (vals (ws st))\<rparr>) = w2"
    using l by (simp add: workset_sort_def w2_def)
  from mr s ws2 obtain st' where d: "dispose env (drop m (workset_vals w2)) (st\<lparr>ws := w2\<rparr>) = Inr st'"
    and e: "st2 = st'\<lparr>ws := workset_set_length (ws st') m\<rparr>"
    by (auto simp: make_room_def bind_err_Inr_iff Let_def)
  from dispose_keeps[OF d] have wst': "ws st' = w2" by simp
  have "st2\<lparr>ws := w2\<rparr> = st'" using e wst' by simp
  with d have "dispose env (drop m (workset_vals w2)) (st\<lparr>ws := w2\<rparr>) = Inr (st2\<lparr>ws := w2\<rparr>)" by simp
  moreover have "workset_vals w2 = map irn (take (len (ws st)) (loc_qsort env stamped @ drop (len (ws st)) (vals (ws st))))"
    by (simp add: workset_vals_def w2_def)
  moreover have "len (ws st2) = m" "vals (ws st2) = loc_qsort env stamped @ drop (len (ws st)) (vals (ws st))"
    using e wst' by (simp_all add: workset_set_length_def w2_def)
  ultimately show ?thesis using s l unfolding w2_def by (intro exI[of _ stamped]) simp
qed

lemma displace_Inr:
  assumes "displace env st nv u = Inr st'"
  obtains st1 ti st2 w where "displace_demand env u (workset_vals nv) st [] = Inr (st1, ti)"
    "(if len (ws st1) > n_regs env - length ti
          then make_room env st1 u (n_regs env - length ti) else Inr st1) = Inr st2"
    "insert_all env (ws st2) ti = Inr w" "st' = st2\<lparr>ws := w\<rparr>"
proof -
  from assms obtain p where p: "displace_demand env u (workset_vals nv) st [] = Inr p"
    by (auto simp: displace_def bind_err_Inr_iff)
  obtain st1 ti where pe: "p = (st1, ti)" by (cases p)
  from assms p pe obtain st2 where m: "(if len (ws st1) > n_regs env - length ti
          then make_room env st1 u (n_regs env - length ti) else Inr st1) = Inr st2"
    and r: "bind_err (insert_all env (ws st2) ti) (\<lambda>w. Inr (st2\<lparr>ws := w\<rparr>)) = Inr st'"
    by (auto simp: displace_def bind_err_Inr_iff Let_def)
  from r obtain w where "insert_all env (ws st2) ti = Inr w" "st' = st2\<lparr>ws := w\<rparr>"
    by (auto simp: bind_err_Inr_iff)
  with p pe m that show thesis by blast
qed


text \<open>
  C2. When the workset holds more than \<open>n_regs - demand\<close> values, \<open>displace\<close> stamps
  every member with its current next-use distance (\<open>get_distance\<close>), sorts the workset
  by increasing distance and drops exactly the entries from position \<open>n_regs - demand\<close>
  on: no kept entry is farther away than an evicted one, the kept entries stay at the
  front, the new values follow them, and the length afterwards is at most \<open>n_regs\<close>.
\<close>

theorem displace_evicts_farthest:
  assumes srt: "sorts_by_time (loc_qsort env)"
    and dem: "displace_demand env is_usage (workset_vals new_vals) st [] = Inr (st1, to_insert)"
    and over: "n_regs env - length to_insert < len (ws st)"
    and wf: "len (ws st) \<le> length (vals (ws st))"
    and res: "displace env st new_vals is_usage = Inr st'"
  shows "\<exists>kept evicted.
      mset (map irn (kept @ evicted)) = mset (workset_vals (ws st))
    \<and> (\<forall>l \<in> set (kept @ evicted).
          get_distance env (instr st) (instr_nr st) (irn l) (\<not> is_usage) = Inr (time l))
    \<and> sorted (map time (kept @ evicted))
    \<and> length kept = n_regs env - length to_insert
    \<and> (\<forall>k \<in> set kept. \<forall>e \<in> set evicted. time k \<le> time e)
    \<and> take (length kept) (vals (ws st')) = kept
    \<and> (\<exists>added. workset_vals (ws st') = map irn kept @ added \<and> set added \<subseteq> set to_insert)
    \<and> len (ws st') \<le> n_regs env"
proof -
  define m where "m = n_regs env - length to_insert"
  define n where "n = len (ws st)"
  from displace_demand_keeps[OF dem] have k1: "ws st1 = ws st" "instr st1 = instr st"
    "instr_nr st1 = instr_nr st" by simp_all
  from res dem over k1 obtain st2 w where mr: "make_room env st1 is_usage m = Inr st2"
    and ia: "insert_all env (ws st2) to_insert = Inr w" and st': "st' = st2\<lparr>ws := w\<rparr>"
    by (elim displace_Inr) (auto simp: m_def)
  from make_room_result[OF mr] wf k1 obtain stamped where
    stp: "set_times env st1 is_usage (take n (vals (ws st))) = Inr stamped"
    and ls: "length stamped = n" and l2: "len (ws st2) = m"
    and v2: "vals (ws st2) = loc_qsort env stamped @ drop n (vals (ws st))"
    by (auto simp: n_def)
  define srtd where "srtd = loc_qsort env stamped"
  note q = sorts_by_timeD[OF srt, of stamped, folded srtd_def]
  from q ls have lsrt: "length srtd = n" by simp
  have mn: "m < n" using over by (simp add: m_def n_def)
  note tk = set_times_keeps[OF stp]
  define kept where "kept = take m srtd"
  define evicted where "evicted = drop m srtd"
  have ke: "kept @ evicted = srtd" by (simp add: kept_def evicted_def)
  have c1: "mset (map irn (kept @ evicted)) = mset (workset_vals (ws st))"
  proof -
    have "mset (map irn srtd) = image_mset irn (mset srtd)" by simp
    also have "\<dots> = image_mset irn (mset stamped)" using q by simp
    also have "\<dots> = mset (map irn stamped)" by simp
    also have "\<dots> = mset (workset_vals (ws st))" using tk by (simp add: workset_vals_def n_def)
    finally show ?thesis by (simp only: ke)
  qed
  have c2: "\<forall>l \<in> set (kept @ evicted).
          get_distance env (instr st) (instr_nr st) (irn l) (\<not> is_usage) = Inr (time l)"
  proof
    fix l assume "l \<in> set (kept @ evicted)"
    then have "l \<in> set srtd" by (simp only: ke)
    then have "l \<in># mset srtd" by simp
    then have "l \<in># mset stamped" using q by simp
    then have "l \<in> set stamped" by simp
    with tk k1 show "get_distance env (instr st) (instr_nr st) (irn l) (\<not> is_usage) = Inr (time l)"
      by simp
  qed
  have c3: "sorted (map time (kept @ evicted))" using q by (simp only: ke)
  have c4: "length kept = n_regs env - length to_insert"
    using mn lsrt by (simp add: kept_def m_def)
  have c5: "\<forall>k \<in> set kept. \<forall>e \<in> set evicted. time k \<le> time e"
    using c3 by (auto simp: sorted_append)
  note ik = insert_all_keeps[OF ia]
  have lk: "length kept = m" using c4 by (simp add: m_def)
  have tv: "take m (vals (ws st2)) = kept"
    using mn lsrt by (simp add: v2 srtd_def[symmetric] kept_def)
  have c6: "take (length kept) (vals (ws st')) = kept"
    using ik l2 tv by (simp add: st' lk)
  have wv2: "workset_vals (ws st2) = map irn kept"
    using tv by (simp add: workset_vals_def l2)
  have c7: "\<exists>added. workset_vals (ws st') = map irn kept @ added \<and> set added \<subseteq> set to_insert"
    using ik wv2 by (simp add: st')
  have "m \<le> n_regs env" by (simp add: m_def)
  then have c8: "len (ws st') \<le> n_regs env" using ik l2 by (simp add: st')
  from c1 c2 c3 c4 c5 c6 c7 c8 show ?thesis by blast
qed


lemma displace_demand_contained:
  "set vs \<subseteq> set (workset_vals (ws st)) \<Longrightarrow> displace_demand env False vs st ti = Inr (st, ti)"
  by (induction vs) (auto simp: workset_contains_def str_literal_def)

text \<open>
  C10. A defined value that is already in the workset does not abort \<open>displace\<close>: the
  second disjunct of the assertion is a string literal, so the assertion holds; the value
  is skipped, adds nothing to the demand and no reload is requested for it. With every
  new value already resident, \<open>displace\<close> leaves the state as it is.
\<close>

theorem displace_defined_value_skipped:
  "(workset_contains (ws st) val \<longrightarrow>
      displace_demand env False (val # rest) st to_insert
        = displace_demand env False rest st to_insert)
   \<and> displace env st new_vals is_usage \<noteq> Inl Defined_value_already_in_workset
   \<and> (set (workset_vals new_vals) \<subseteq> set (workset_vals (ws st)) \<and> len (ws st) \<le> n_regs env
        \<longrightarrow> displace env st new_vals False = Inr st)"
proof (intro conjI impI)
  assume "workset_contains (ws st) val"
  then show "displace_demand env False (val # rest) st to_insert
        = displace_demand env False rest st to_insert"
    by (simp add: str_literal_def)
next
  show "displace env st new_vals is_usage \<noteq> Inl Defined_value_already_in_workset"
    using displace_err[of env st new_vals is_usage Defined_value_already_in_workset] by auto
next
  assume a: "set (workset_vals new_vals) \<subseteq> set (workset_vals (ws st)) \<and> len (ws st) \<le> n_regs env"
  then have "displace_demand env False (workset_vals new_vals) st [] = Inr (st, [])"
    by (simp add: displace_demand_contained)
  with a show "displace env st new_vals False = Inr st"
    by (simp add: displace_def)
qed

lemma sorts_by_time_sort_key: "sorts_by_time (sort_key time)"
  by (simp add: sorts_by_time_def)

lemma ex_env_simps:
  "n_regs ex_env = 2" "cls ex_env = 0" "irn_cls ex_env n = 0"
  "flags_ignore ex_env n = (n = 11)" "flags_dont_spill ex_env n = False"
  "loc_qsort ex_env = sort_key time" "is_Phi ex_env n = (n = 5)" "is_Proj ex_env n = False"
  "is_Unknown ex_env n = False" "is_mode_T ex_env n = False" "start_block ex_env = 100"
  by (simp_all add: ex_env_def)

lemma ex_displace:
  "displace ex_env ex_st (ex_new_vals 6) False =
     Inr ex_st_after"
  by (simp add: displace_def ex_st_def ex_st_after_def ex_new_vals_def workset_vals_def workset_contains_def
        ex_env_def make_room_def get_distance_def ex_next_uses_def workset_sort_def
        workset_remove_def workset_set_length_def workset_insert_def
        arch_irn_consider_in_reg_alloc_def Let_def be_spill_phi_def)

theorem displace_evicts_farthest_witness:
  "sorts_by_time (loc_qsort ex_env)
   \<and> displace_demand ex_env False (workset_vals (ex_new_vals 6)) ex_st [] = Inr (ex_st, [6])
   \<and> n_regs ex_env - length [6 :: ir_node] < len (ws ex_st)
   \<and> len (ws ex_st) \<le> length (vals (ws ex_st))
   \<and> displace ex_env ex_st (ex_new_vals 6) False = Inr ex_st_after
   \<and> (\<exists>kept evicted.
        mset (map irn (kept @ evicted)) = mset (workset_vals (ws ex_st))
      \<and> (\<forall>l \<in> set (kept @ evicted).
            get_distance ex_env (instr ex_st) (instr_nr ex_st) (irn l) (\<not> False) = Inr (time l))
      \<and> sorted (map time (kept @ evicted))
      \<and> length kept = n_regs ex_env - length [6 :: ir_node]
      \<and> (\<forall>k \<in> set kept. \<forall>e \<in> set evicted. time k \<le> time e)
      \<and> take (length kept) (vals (ws ex_st_after)) = kept
      \<and> (\<exists>added. workset_vals (ws ex_st_after) = map irn kept @ added \<and> set added \<subseteq> set [6])
      \<and> len (ws ex_st_after) \<le> n_regs ex_env)"
proof -
  have h1: "sorts_by_time (loc_qsort ex_env)"
    by (simp add: ex_env_simps sorts_by_time_sort_key)
  have h2: "displace_demand ex_env False (workset_vals (ex_new_vals 6)) ex_st [] = Inr (ex_st, [6])"
    by (simp add: ex_new_vals_def workset_vals_def ex_st_def workset_contains_def ex_env_simps)
  have h3: "n_regs ex_env - length [6 :: ir_node] < len (ws ex_st)"
    by (simp add: ex_env_simps ex_st_def)
  have h4: "len (ws ex_st) \<le> length (vals (ws ex_st))"
    by (simp add: ex_st_def)
  note h5 = ex_displace
  from displace_evicts_farthest[OF h1 h2 h3 h4 h5] h1 h2 h3 h4 h5 show ?thesis
    by (intro conjI)
qed

theorem displace_defined_value_skipped_witness:
  "workset_contains (ws ex_st) 5
   \<and> displace_demand ex_env False [5] ex_st [] = Inr (ex_st, [])
   \<and> set (workset_vals (ex_new_vals 5)) \<subseteq> set (workset_vals (ws ex_st))
   \<and> len (ws ex_st) \<le> n_regs ex_env
   \<and> displace ex_env ex_st (ex_new_vals 5) False = Inr ex_st"
proof -
  have h1: "workset_contains (ws ex_st) 5"
    by (simp add: workset_contains_def workset_vals_def ex_st_def)
  have h2: "set (workset_vals (ex_new_vals 5)) \<subseteq> set (workset_vals (ws ex_st))
              \<and> len (ws ex_st) \<le> n_regs ex_env"
    by (simp add: workset_vals_def ex_st_def ex_new_vals_def ex_env_simps)
  from displace_defined_value_skipped[of ex_st 5 ex_env "[]" "[]" "ex_new_vals 5" False] h1 h2
  show ?thesis by simp
qed

subsection \<open>The walk over a block keeps the workset within the class\<close>

lemma ends_bounded_cong:
  assumes "\<forall>b. map_option ws_end (info st' b) = map_option ws_end (info st b)"
    and "ends_bounded env st"
  shows "ends_bounded env st'"
  unfolding ends_bounded_def
proof (intro allI impI)
  fix b bi w assume a: "info st' b = Some bi" "ws_end bi = Some w"
  from assms(1) a obtain bi0 where "info st b = Some bi0" "ws_end bi0 = ws_end bi"
    by (metis map_option_eq_Some option.simps(9))
  with assms(2) a show "len w \<le> n_regs env" by (auto simp: ends_bounded_def)
qed

lemma make_room_keeps:
  assumes "make_room env st u m = Inr st2"
  shows "len (ws st2) = m \<and> (\<forall>b. map_option ws_end (info st2 b) = map_option ws_end (info st b))"
proof -
  from assms obtain stamped st' where
    d: "dispose env (drop m (workset_vals (workset_sort env ((ws st)\<lparr>vals := stamped @ drop (len (ws st)) (vals (ws st))\<rparr>))))
          (st\<lparr>ws := workset_sort env ((ws st)\<lparr>vals := stamped @ drop (len (ws st)) (vals (ws st))\<rparr>)\<rparr>) = Inr st'"
    and e: "st2 = st'\<lparr>ws := workset_set_length (ws st') m\<rparr>"
    by (auto simp: make_room_def bind_err_Inr_iff Let_def)
  from dispose_keeps[OF d] e show ?thesis by (simp add: workset_set_length_def)
qed

lemma displace_keeps:
  assumes r: "displace env st nv u = Inr st'"
  shows "(\<forall>b. map_option ws_end (info st' b) = map_option ws_end (info st b))
         \<and> (len (ws st) \<le> n_regs env \<longrightarrow> len (ws st') \<le> n_regs env)"
proof -
  from r obtain st1 ti st2 w where
    dem: "displace_demand env u (workset_vals nv) st [] = Inr (st1, ti)"
    and mr: "(if len (ws st1) > n_regs env - length ti
          then make_room env st1 u (n_regs env - length ti) else Inr st1) = Inr st2"
    and ia: "insert_all env (ws st2) ti = Inr w" and st': "st' = st2\<lparr>ws := w\<rparr>"
    by (rule displace_Inr)
  note k1 = displace_demand_keeps[OF dem]
  have s2: "(\<forall>b. map_option ws_end (info st2 b) = map_option ws_end (info st b))
            \<and> (len (ws st) \<le> n_regs env \<longrightarrow> len (ws st2) \<le> n_regs env)"
  proof (cases "len (ws st1) > n_regs env - length ti")
    case True
    with mr have "make_room env st1 u (n_regs env - length ti) = Inr st2" by simp
    from make_room_keeps[OF this] k1 show ?thesis by simp
  next
    case False
    with mr have "st2 = st1" by simp
    with k1 show ?thesis by simp
  qed
  from insert_all_keeps[OF ia] s2 show ?thesis by (simp add: st')
qed

lemma belady_instr_keeps:
  assumes r: "belady_instr env rest st nv n = Inr (st', nv')"
  shows "(\<forall>b. map_option ws_end (info st' b) = map_option ws_end (info st b))
         \<and> (len (ws st) \<le> n_regs env \<longrightarrow> len (ws st') \<le> n_regs env)"
proof -
  from r obtain nv1 st2 nv2 st3 where
    d1: "displace env (st\<lparr>instr := n\<rparr>) nv1 True = Inr st2"
    and d2: "displace env st2 nv2 False = Inr st3"
    and e: "st' = st3\<lparr>instr_nr := instr_nr st3 + 1\<rparr>"
    by (auto simp: belady_instr_def Let_def bind_err_Inr_iff)
  from displace_keeps[OF d1] displace_keeps[OF d2] e show ?thesis by simp
qed

lemma belady_instr_err:
  "belady_instr env rest st nv n = Inl e \<Longrightarrow>
     e = Out_of_bounds \<or> e = Ignore_flag_set \<or> e = Null_deref \<or> e = Workset_already_full"
  by (auto simp: belady_instr_def Let_def bind_err_Inl_iff dest: insert_all_err displace_err)

lemma belady_walk_keeps:
  "len (ws st) \<le> n_regs env \<Longrightarrow>
     belady_walk env ns st nv \<noteq> Inl Too_much_values
     \<and> (\<forall>st'. belady_walk env ns st nv = Inr st' \<longrightarrow>
           len (ws st') \<le> n_regs env
           \<and> (\<forall>b. map_option ws_end (info st' b) = map_option ws_end (info st b)))"
proof (induction ns arbitrary: st nv)
  case Nil
  then show ?case by simp
next
  case (Cons n ns)
  show ?case
  proof (cases "is_Proj env n \<or> is_Phi env n")
    case True
    with Cons.prems Cons.IH[OF Cons.prems, of nv] show ?thesis by simp
  next
    case False
    show ?thesis
    proof (cases "belady_instr env ns st nv n")
      case (Inl e)
      with False Cons.prems belady_instr_err[OF Inl] show ?thesis by auto
    next
      case (Inr p)
      obtain st1 nv1 where p: "p = (st1, nv1)" by (cases p)
      from belady_instr_keeps[OF Inr[unfolded p]] Cons.prems
      have k: "\<forall>b. map_option ws_end (info st1 b) = map_option ws_end (info st b)"
        "len (ws st1) \<le> n_regs env" by simp_all
      from False Cons.prems Inr p have "belady_walk env (n # ns) st nv = belady_walk env ns st1 nv1"
        by simp
      with Cons.IH[OF k(2), of nv1] k(1) show ?thesis by simp
    qed
  qed
qed


lemma phi_starters_err: "phi_starters env f ns = Inl e \<Longrightarrow> e = Ignore_flag_set"
proof (induction ns)
  case Nil
  then show ?case by simp
next
  case (Cons n ns)
  then show ?case
    by (auto simp: bind_err_Inl_iff split: if_splits dest: get_distance_err)
qed

lemma live_starters_err: "live_starters env f ns = Inl e \<Longrightarrow> e = Ignore_flag_set"
proof (induction ns)
  case Nil
  then show ?case by simp
next
  case (Cons n ns)
  then show ?case
    by (auto simp: bind_err_Inl_iff split: if_splits dest: get_distance_err)
qed

lemma spill_phis_keeps:
  "info (spill_phis env blk ns st) = info st \<and> ws (spill_phis env blk ns st) = ws st
   \<and> reloads (spill_phis env blk ns st) = reloads st
   \<and> edge_reloads (spill_phis env blk ns st) = edge_reloads st"
  by (induction ns arbitrary: st) (auto simp: be_spill_phi_def)

lemma set_ws_start_err: "set_ws_start st blk w = Inl e \<Longrightarrow> e = Null_deref"
  by (auto simp: set_ws_start_def split: option.splits)

lemma set_ws_start_Inr:
  assumes "set_ws_start st blk w = Inr st'"
  shows "\<exists>res. info st blk = Some res \<and> st' = st\<lparr>info := (info st)(blk \<mapsto> res\<lparr>ws_start := Some w\<rparr>)\<rparr>"
  using assms by (auto simp: set_ws_start_def split: option.splits)

lemma set_ws_start_keeps:
  assumes "set_ws_start st blk w = Inr st'"
  shows "(\<forall>b. map_option ws_end (info st' b) = map_option ws_end (info st b))
         \<and> (\<exists>bi. info st' blk = Some bi \<and> ws_start bi = Some w)"
  using set_ws_start_Inr[OF assms] by auto


lemma bind_err_InrE:
  assumes "bind_err r f = Inr y"
  obtains x where "r = Inr x" "f x = Inr y"
  using assms by (auto simp: bind_err_Inr_iff)

lemma cbsi_Inr:
  assumes r: "compute_block_start_info rec env st blk = Inr st'" and none: "info st blk = None"
    and st0: "st0 = st\<lparr>info := (info st)(blk \<mapsto> \<lparr>ws_start = None, ws_end = None\<rparr>)\<rparr>"
    and pred: "pred = cfgpreds env blk ! 0"
  shows "\<exists>ps ls. phi_starters env (sched_first env blk) (sched env blk) = Inr ps
     \<and> live_starters env (sched_first env blk) (live_in env blk) = Inr ls
     \<and> (if length (cfgpreds env blk) = 1 \<and> blk \<noteq> start_block env
        then (\<exists>st1 pred_info e.
                (case info st0 pred of None \<Rightarrow> rec st0 pred | Some _ \<Rightarrow> Inr st0) = Inr st1
                \<and> info st1 pred = Some pred_info \<and> ws_end pred_info = Some e
                \<and> set_ws_start st1 blk (workset_clone e) = Inr st')
        else (\<exists>st1. set_ws_start st0 blk
                       (workset_bulk_fill (new_workset env) (min (length (ps @ ls)) (n_regs env))
                          (loc_qsort env (ps @ ls))) = Inr st1
                \<and> st' = spill_phis env blk
                           (map irn (drop (min (length (ps @ ls)) (n_regs env)) (loc_qsort env (ps @ ls))))
                           st1))"
proof -
  note r' = r[unfolded compute_block_start_info_def none option.case Let_def, folded st0 pred]
  from r' obtain ps where ps: "phi_starters env (sched_first env blk) (sched env blk) = Inr ps"
    and r2: "bind_err (live_starters env (sched_first env blk) (live_in env blk))
             (\<lambda>ls. if length (cfgpreds env blk) = 1 \<and> blk \<noteq> start_block env then
                     bind_err (case info st0 pred of None \<Rightarrow> rec st0 pred | Some _ \<Rightarrow> Inr st0)
                           (\<lambda>st1. case info st1 pred of
                                     None \<Rightarrow> Inl Null_deref
                                   | Some pred_info \<Rightarrow>
                                       (case ws_end pred_info of
                                          None \<Rightarrow> Inl No_end_set
                                        | Some e \<Rightarrow> set_ws_start st1 blk (workset_clone e)))
                   else
                     bind_err (set_ws_start st0 blk
                                     (workset_bulk_fill (new_workset env) (min (length (ps @ ls)) (n_regs env)) (loc_qsort env (ps @ ls))))
                           (\<lambda>st1. Inr (spill_phis env blk
                                          (map irn (drop (min (length (ps @ ls)) (n_regs env)) (loc_qsort env (ps @ ls)))) st1))) = Inr st'"
    by (rule bind_err_InrE)
  from r2 obtain ls where ls: "live_starters env (sched_first env blk) (live_in env blk) = Inr ls"
    and r3: "(if length (cfgpreds env blk) = 1 \<and> blk \<noteq> start_block env then
                     bind_err (case info st0 pred of None \<Rightarrow> rec st0 pred | Some _ \<Rightarrow> Inr st0)
                           (\<lambda>st1. case info st1 pred of
                                     None \<Rightarrow> Inl Null_deref
                                   | Some pred_info \<Rightarrow>
                                       (case ws_end pred_info of
                                          None \<Rightarrow> Inl No_end_set
                                        | Some e \<Rightarrow> set_ws_start st1 blk (workset_clone e)))
                   else
                     bind_err (set_ws_start st0 blk
                                     (workset_bulk_fill (new_workset env) (min (length (ps @ ls)) (n_regs env)) (loc_qsort env (ps @ ls))))
                           (\<lambda>st1. Inr (spill_phis env blk
                                          (map irn (drop (min (length (ps @ ls)) (n_regs env)) (loc_qsort env (ps @ ls)))) st1))) = Inr st'"
    by (rule bind_err_InrE)
  show ?thesis
  proof (cases "length (cfgpreds env blk) = 1 \<and> blk \<noteq> start_block env")
    case True
    from r3[unfolded if_P[OF True]] have "bind_err (case info st0 pred of None \<Rightarrow> rec st0 pred | Some _ \<Rightarrow> Inr st0)
                           (\<lambda>st1. case info st1 pred of
                                     None \<Rightarrow> Inl Null_deref
                                   | Some pred_info \<Rightarrow>
                                       (case ws_end pred_info of
                                          None \<Rightarrow> Inl No_end_set
                                        | Some e \<Rightarrow> set_ws_start st1 blk (workset_clone e))) = Inr st'"
      .
    then obtain st1 where
      s1: "(case info st0 pred of None \<Rightarrow> rec st0 pred | Some _ \<Rightarrow> Inr st0) = Inr st1"
      and s2: "(case info st1 pred of
                  None \<Rightarrow> Inl Null_deref
                | Some pred_info \<Rightarrow>
                    (case ws_end pred_info of
                       None \<Rightarrow> Inl No_end_set
                     | Some e \<Rightarrow> set_ws_start st1 blk (workset_clone e))) = Inr st'"
      by (rule bind_err_InrE)
    from s2 obtain pred_info e where "info st1 pred = Some pred_info" "ws_end pred_info = Some e"
      "set_ws_start st1 blk (workset_clone e) = Inr st'"
      by (auto split: option.splits)
    with s1 ps ls show ?thesis unfolding if_P[OF True] by blast
  next
    case False
    from r3[unfolded if_not_P[OF False]] have "bind_err (set_ws_start st0 blk
                                     (workset_bulk_fill (new_workset env) (min (length (ps @ ls)) (n_regs env)) (loc_qsort env (ps @ ls))))
                           (\<lambda>st1. Inr (spill_phis env blk
                                          (map irn (drop (min (length (ps @ ls)) (n_regs env)) (loc_qsort env (ps @ ls)))) st1)) = Inr st'"
      .
    then obtain st1 where
      "set_ws_start st0 blk
                       (workset_bulk_fill (new_workset env) (min (length (ps @ ls)) (n_regs env))
                          (loc_qsort env (ps @ ls))) = Inr st1"
      "Inr (spill_phis env blk
                           (map irn (drop (min (length (ps @ ls)) (n_regs env)) (loc_qsort env (ps @ ls))))
                           st1) = (Inr st' :: error + belady_state)"
      by (rule bind_err_InrE)
    with ps ls show ?thesis unfolding if_not_P[OF False] by blast
  qed
qed


lemma set_ws_start_Inl_iff:
  "set_ws_start st blk w = Inl e \<longleftrightarrow> info st blk = None \<and> e = Null_deref"
  by (auto simp: set_ws_start_def split: option.splits)

lemma cbsi_err:
  assumes "compute_block_start_info rec env st blk = Inl e"
  shows "e = Ignore_flag_set \<or> e = Null_deref \<or> e = No_end_set
         \<or> rec (st\<lparr>info := (info st)(blk \<mapsto> \<lparr>ws_start = None, ws_end = None\<rparr>)\<rparr>)
               (cfgpreds env blk ! 0) = Inl e"
  using assms
  unfolding compute_block_start_info_def Let_def
  by (auto simp: bind_err_Inl_iff set_ws_start_Inl_iff split: option.splits if_splits
           dest: phi_starters_err live_starters_err)

lemma cbsi_bounded:
  assumes rec_ok: "\<And>s b s'. ends_bounded env s \<Longrightarrow> rec s b = Inr s' \<Longrightarrow> ends_bounded env s'"
    and eb: "ends_bounded env st" and none: "info st blk = None"
    and r: "compute_block_start_info rec env st blk = Inr st'"
  shows "ends_bounded env st'
         \<and> (\<exists>bi w. info st' blk = Some bi \<and> ws_start bi = Some w \<and> len w \<le> n_regs env)"
proof -
  define st0 where "st0 = st\<lparr>info := (info st)(blk \<mapsto> \<lparr>ws_start = None, ws_end = None\<rparr>)\<rparr>"
  define pred where "pred = cfgpreds env blk ! 0"
  have eb0: "ends_bounded env st0"
    using eb by (auto simp: ends_bounded_def st0_def)
  from cbsi_Inr[OF r none st0_def pred_def] obtain ps ls where
    br: "(if length (cfgpreds env blk) = 1 \<and> blk \<noteq> start_block env
        then (\<exists>st1 pred_info e.
                (case info st0 pred of None \<Rightarrow> rec st0 pred | Some _ \<Rightarrow> Inr st0) = Inr st1
                \<and> info st1 pred = Some pred_info \<and> ws_end pred_info = Some e
                \<and> set_ws_start st1 blk (workset_clone e) = Inr st')
        else (\<exists>st1. set_ws_start st0 blk
                       (workset_bulk_fill (new_workset env) (min (length (ps @ ls)) (n_regs env))
                          (loc_qsort env (ps @ ls))) = Inr st1
                \<and> st' = spill_phis env blk
                           (map irn (drop (min (length (ps @ ls)) (n_regs env)) (loc_qsort env (ps @ ls))))
                           st1))"
    by blast
  show ?thesis
  proof (cases "length (cfgpreds env blk) = 1 \<and> blk \<noteq> start_block env")
    case True
    from br[unfolded if_P[OF True]] obtain st1 pred_info e where
      s1: "(case info st0 pred of None \<Rightarrow> rec st0 pred | Some _ \<Rightarrow> Inr st0) = Inr st1"
      and pi: "info st1 pred = Some pred_info" "ws_end pred_info = Some e"
      and sw: "set_ws_start st1 blk (workset_clone e) = Inr st'" by blast
    have eb1: "ends_bounded env st1"
    proof (cases "info st0 pred")
      case None
      with s1 have "rec st0 pred = Inr st1" by simp
      from rec_ok[OF eb0 this] show ?thesis .
    next
      case (Some a)
      with s1 eb0 show ?thesis by simp
    qed
    from eb1 pi have le: "len e \<le> n_regs env" by (auto simp: ends_bounded_def)
    from set_ws_start_keeps[OF sw] ends_bounded_cong[OF _ eb1, of st'] le
    show ?thesis by (auto simp: workset_clone_def)
  next
    case False
    from br[unfolded if_not_P[OF False]] obtain st1 where
      sw: "set_ws_start st0 blk
                       (workset_bulk_fill (new_workset env) (min (length (ps @ ls)) (n_regs env))
                          (loc_qsort env (ps @ ls))) = Inr st1"
      and e: "st' = spill_phis env blk
                           (map irn (drop (min (length (ps @ ls)) (n_regs env)) (loc_qsort env (ps @ ls))))
                           st1" by blast
    have i: "info st' = info st1" by (simp add: e spill_phis_keeps)
    from set_ws_start_keeps[OF sw] ends_bounded_cong[OF _ eb0, of st1]
    have "ends_bounded env st1"
      and "\<exists>bi. info st1 blk = Some bi \<and> ws_start bi = Some (workset_bulk_fill (new_workset env) (min (length (ps @ ls)) (n_regs env))
                          (loc_qsort env (ps @ ls)))" by auto
    then show ?thesis using i by (auto simp: ends_bounded_def workset_bulk_fill_def)
  qed
qed

lemma belady_body_bounded:
  assumes rec_ok: "\<And>s b. ends_bounded env s \<Longrightarrow>
      rec s b \<noteq> Inl Too_much_values \<and> (\<forall>s'. rec s b = Inr s' \<longrightarrow> ends_bounded env s')"
    and eb: "ends_bounded env st"
  shows "belady_body rec env st blk \<noteq> Inl Too_much_values
         \<and> (\<forall>st'. belady_body rec env st blk = Inr st' \<longrightarrow> ends_bounded env st')"
proof (cases "info st blk")
  case (Some a)
  with eb show ?thesis by (simp add: belady_body_def)
next
  case None
  define st0 where "st0 = st\<lparr>info := (info st)(blk \<mapsto> \<lparr>ws_start = None, ws_end = None\<rparr>)\<rparr>"
  have eb0: "ends_bounded env st0"
    using eb by (auto simp: ends_bounded_def st0_def)
  show ?thesis
  proof (cases "compute_block_start_info rec env st blk")
    case (Inl e)
    from cbsi_err[OF Inl] rec_ok[OF eb0] have "e \<noteq> Too_much_values"
      by (auto simp: st0_def)
    with Inl None show ?thesis by (simp add: belady_body_def)
  next
    case (Inr st1)
    have rk: "ends_bounded env s \<Longrightarrow> rec s b = Inr s' \<Longrightarrow> ends_bounded env s'" for s b s'
      using rec_ok by blast
    have "ends_bounded env st1
         \<and> (\<exists>bi w. info st1 blk = Some bi \<and> ws_start bi = Some w \<and> len w \<le> n_regs env)"
      by (rule cbsi_bounded[OF _ eb None Inr]) (blast intro: rk)
    then obtain bi w where
      eb1: "ends_bounded env st1" and bi: "info st1 blk = Some bi" and w: "ws_start bi = Some w"
      and lw: "len w \<le> n_regs env" by blast
    define st2 where "st2 = st1\<lparr>ws := workset_copy (ws st1) w, used := {}, instr_nr := 0\<rparr>"
    have l2: "len (ws st2) \<le> n_regs env" using lw by (simp add: st2_def workset_copy_def)
    have bb: "belady_body rec env st blk =
        bind_err (belady_walk env (sched env blk) st2 (new_workset env))
          (\<lambda>st3. case info st3 blk of
                    None \<Rightarrow> Inl Null_deref
                  | Some bi \<Rightarrow>
                      Inr (st3\<lparr>info := (info st3)(blk \<mapsto>
                             bi\<lparr>ws_end := Some (workset_clone (ws st3))\<rparr>)\<rparr>))"
      using None Inr bi w by (simp add: belady_body_def st2_def Let_def)
    note wk = belady_walk_keeps[OF l2, of "sched env blk" "new_workset env"]
    show ?thesis
    proof (cases "belady_walk env (sched env blk) st2 (new_workset env)")
      case (Inl e)
      with wk bb show ?thesis by simp
    next
      case (Inr st3)
      with wk have l3: "len (ws st3) \<le> n_regs env"
        and k3: "\<forall>b. map_option ws_end (info st3 b) = map_option ws_end (info st2 b)" by simp_all
      have "info st2 = info st1" by (simp add: st2_def)
      with k3 have "\<forall>b. map_option ws_end (info st3 b) = map_option ws_end (info st1 b)" by simp
      from ends_bounded_cong[OF this eb1] have eb3: "ends_bounded env st3" .
      show ?thesis
      proof (cases "info st3 blk")
        case None
        with bb Inr show ?thesis by simp
      next
        case (Some bi3)
        with bb Inr have "belady_body rec env st blk =
          Inr (st3\<lparr>info := (info st3)(blk \<mapsto> bi3\<lparr>ws_end := Some (workset_clone (ws st3))\<rparr>)\<rparr>)"
          by simp
        moreover have "ends_bounded env
           (st3\<lparr>info := (info st3)(blk \<mapsto> bi3\<lparr>ws_end := Some (workset_clone (ws st3))\<rparr>)\<rparr>)"
          using eb3 l3 by (auto simp: ends_bounded_def workset_clone_def)
        ultimately show ?thesis by simp
      qed
    qed
  qed
qed

lemma belady_bounded:
  "ends_bounded env st \<Longrightarrow>
     belady fuel env st blk \<noteq> Inl Too_much_values
     \<and> (\<forall>st'. belady fuel env st blk = Inr st' \<longrightarrow> ends_bounded env st')"
proof (induction fuel arbitrary: st blk)
  case 0
  then show ?case by simp
next
  case (Suc fuel)
  have ih: "ends_bounded env s \<Longrightarrow>
      belady fuel env s b \<noteq> Inl Too_much_values
      \<and> (\<forall>s'. belady fuel env s b = Inr s' \<longrightarrow> ends_bounded env s')" for s b
    using Suc.IH by blast
  have "belady_body (belady fuel env) env st blk \<noteq> Inl Too_much_values
         \<and> (\<forall>st'. belady_body (belady fuel env) env st blk = Inr st' \<longrightarrow> ends_bounded env st')"
    by (rule belady_body_bounded[OF _ Suc.prems]) (blast dest: ih)
  then show ?case by simp
qed


lemma ex_env_sel:
  "n_regs ex_env = 2" "cls ex_env = 0" "irn_cls ex_env n = 0"
  "flags_ignore ex_env n = (n = 11)" "flags_dont_spill ex_env n = False"
  "be_get_next_use ex_env from step d skip =
     (case map_of ex_next_uses (from, d, skip) of Some t \<Rightarrow> t | None \<Rightarrow> 1000)"
  "loc_qsort ex_env = sort_key time" "is_Phi ex_env n = (n = 5)" "is_Proj ex_env n = False"
  "is_Unknown ex_env n = False" "is_mode_T ex_env n = False"
  "irn_ins ex_env n = (if n = 3 then [1, 2] else if n = 4 then [3, 1]
                     else if n = 5 then [3, 4] else if n = 6 then [5]
                     else if n = 7 then [6] else if n = 8 then [7, 1]
                     else if n = 9 then [8, 5] else if n = 10 then [5, 11] else [])"
  "nodes_block ex_env n = (if n \<le> 3 then 100 else if n = 4 then 101
                         else if n \<le> 6 then 102 else if n \<le> 9 then 103 else 104)"
  "sched ex_env b = (if b = 100 then [1, 2, 3] else if b = 101 then [4]
                   else if b = 102 then [5, 6] else if b = 103 then [7, 8, 9]
                   else if b = 104 then [10] else [])"
  "live_in ex_env b = (if b = 101 then [1, 3] else if b = 102 then [1]
                     else if b = 103 then [1, 5, 6] else if b = 104 then [5] else [])"
  "cfgpreds ex_env b = (if b = 101 then [100] else if b = 102 then [100, 101]
                      else if b = 103 then [102] else if b = 104 then [102] else [])"
  "start_block ex_env = 100"
  by (simp_all add: ex_env_def)

lemma ex_new_workset:
  "new_workset ex_env = \<lparr>len = 0, vals = [\<lparr>irn = 0, time = 0\<rparr>, \<lparr>irn = 0, time = 0\<rparr>]\<rparr>"
  by (simp add: new_workset_def ex_env_sel numeral_2_eq_2)

lemmas ex_eval =
  belady_body_def compute_block_start_info_def belady_instr_def
  displace_def make_room_def get_distance_def set_ws_start_def
  workset_vals_def workset_contains_def workset_sort_def
  workset_remove_def workset_set_length_def workset_insert_def workset_clear_def
  workset_clone_def workset_copy_def workset_bulk_fill_def ex_new_workset
  arch_irn_consider_in_reg_alloc_def sched_first_def
  be_spill_phi_def be_add_reload_def init_state_def
  ex_env_sel ex_next_uses_def Let_def

lemma ex_run_103:
  "map_sum id (\<lambda>s. (ws s, reloads s, spilled_phis s, map_option ws_start (info s 103)))
     (belady (Suc (Suc 0)) ex_env (init_state ex_env) 103)
   = Inr (\<lparr>len = 2, vals = [\<lparr>irn = 8, time = 1000\<rparr>, \<lparr>irn = 9, time = 1000\<rparr>]\<rparr>,
          [(1, 8), (5, 9)], [5],
          Some (Some \<lparr>len = 1, vals = [\<lparr>irn = 6, time = 2\<rparr>, \<lparr>irn = 6, time = 2\<rparr>]\<rparr>))"
  by (simp add: ex_eval)

text \<open>
  C1. The workset never exceeds \<open>n_regs\<close>: \<open>workset_insert\<close> either leaves the length as
  it is or adds one entry without passing \<open>n_regs\<close>; an instruction processed with at most
  \<open>n_regs\<close> resident values leaves at most \<open>n_regs\<close>; and when the end worksets recorded so
  far are within \<open>n_regs\<close>, \<open>belady\<close> never fails the check made at the start of every
  scheduled instruction, and the end worksets it records are within \<open>n_regs\<close> again.
\<close>

theorem belady_workset_bounded:
  "(workset_insert env w v = Inr w' \<longrightarrow>
      len w' = len w \<or> (len w' = len w + 1 \<and> len w' \<le> n_regs env))
   \<and> (len (ws st) \<le> n_regs env \<and> belady_instr env rest st nv n = Inr (st1, nv1)
        \<longrightarrow> len (ws st1) \<le> n_regs env)
   \<and> (ends_bounded env st \<longrightarrow>
        belady fuel env st blk \<noteq> Inl Too_much_values
        \<and> (\<forall>st'. belady fuel env st blk = Inr st' \<longrightarrow> ends_bounded env st'))"
proof (intro conjI impI)
  assume "workset_insert env w v = Inr w'"
  from workset_insert_cases[OF this]
  show "len w' = len w \<or> (len w' = len w + 1 \<and> len w' \<le> n_regs env)" by auto
next
  assume "len (ws st) \<le> n_regs env \<and> belady_instr env rest st nv n = Inr (st1, nv1)"
  then show "len (ws st1) \<le> n_regs env" using belady_instr_keeps[of env rest st nv n st1 nv1] by simp
next
  assume "ends_bounded env st"
  from belady_bounded[OF this] show "belady fuel env st blk \<noteq> Inl Too_much_values" by simp
next
  assume "ends_bounded env st"
  from belady_bounded[OF this]
  show "\<forall>st'. belady fuel env st blk = Inr st' \<longrightarrow> ends_bounded env st'" by simp
qed

theorem belady_workset_bounded_witness:
  "ends_bounded ex_env (init_state ex_env)
   \<and> belady (Suc (Suc 0)) ex_env (init_state ex_env) 103 \<noteq> Inl Too_much_values
   \<and> (\<exists>st'. belady (Suc (Suc 0)) ex_env (init_state ex_env) 103 = Inr st'
             \<and> ends_bounded ex_env st' \<and> len (ws st') = 2)
   \<and> workset_insert ex_env ex_ws 6
        = Inr \<lparr>len = 2, vals = [\<lparr>irn = 5, time = 0\<rparr>, \<lparr>irn = 6, time = 0\<rparr>]\<rparr>
   \<and> len \<lparr>len = 2, vals = [\<lparr>irn = 5, time = 0\<rparr>, \<lparr>irn = 6, time = 0\<rparr>]\<rparr> \<le> n_regs ex_env
   \<and> len (ws (init_state ex_env)) \<le> n_regs ex_env
   \<and> (\<exists>st1 nv1. belady_instr ex_env [2, 3] (init_state ex_env) (new_workset ex_env) 1 = Inr (st1, nv1)
                 \<and> len (ws st1) \<le> n_regs ex_env)"
proof -
  have l0: "len (ws (init_state ex_env)) \<le> n_regs ex_env"
    by (simp add: init_state_def ex_new_workset)
  have "map_sum id (\<lambda>p. len (ws (fst p)))
          (belady_instr ex_env [2, 3] (init_state ex_env) (new_workset ex_env) 1) = Inr 1"
    by (simp add: ex_eval)
  then obtain st1 nv1 where
    bi: "belady_instr ex_env [2, 3] (init_state ex_env) (new_workset ex_env) 1 = Inr (st1, nv1)"
    by (cases "belady_instr ex_env [2, 3] (init_state ex_env) (new_workset ex_env) 1") auto
  have h: "ends_bounded ex_env (init_state ex_env)"
    by (simp add: ends_bounded_def init_state_def)
  obtain st' where r: "belady (Suc (Suc 0)) ex_env (init_state ex_env) 103 = Inr st'"
    and l: "len (ws st') = 2"
    using ex_run_103 by (cases "belady (Suc (Suc 0)) ex_env (init_state ex_env) 103") auto
  have s: "workset_insert ex_env ex_ws 6
             = Inr \<lparr>len = 2, vals = [\<lparr>irn = 5, time = 0\<rparr>, \<lparr>irn = 6, time = 0\<rparr>]\<rparr>"
    by (simp add: workset_insert_def ex_env_sel ex_ws_def workset_vals_def
          arch_irn_consider_in_reg_alloc_def)
  note t = belady_workset_bounded[where env = ex_env and w = ex_ws and v = 6
      and w' = "\<lparr>len = 2, vals = [\<lparr>irn = 5, time = 0\<rparr>, \<lparr>irn = 6, time = 0\<rparr>]\<rparr>"
      and st = "init_state ex_env" and fuel = "Suc (Suc 0)" and blk = 103
      and rest = "[2, 3]" and nv = "new_workset ex_env" and n = 1 and ?st1.0 = st1 and ?nv1.0 = nv1]
  from t h r have "ends_bounded ex_env st'" by blast
  moreover from t h have "belady (Suc (Suc 0)) ex_env (init_state ex_env) 103 \<noteq> Inl Too_much_values"
    by blast
  moreover from t s have
    "len \<lparr>len = 2, vals = [\<lparr>irn = 5, time = 0\<rparr>, \<lparr>irn = 6, time = 0\<rparr>]\<rparr> \<le> n_regs ex_env"
    by (simp add: ex_env_sel)
  moreover from t l0 bi have "len (ws st1) \<le> n_regs ex_env" by blast
  ultimately show ?thesis using h r l s l0 bi by blast
qed

text \<open>
  C7. The run of \<open>belady\<close> on block \<open>103\<close> of the small program (it processes the
  predecessor \<open>102\<close> first). The Phi \<open>5\<close> of block \<open>102\<close> reaches block \<open>103\<close> in the
  start workset and is evicted at instruction \<open>8\<close>, before block \<open>103\<close> has used it: it is
  removed from the start workset of block \<open>103\<close>, and \<open>be_spill_phi\<close> is called for it
  although it is not a Phi of block \<open>103\<close>. Processing block \<open>102\<close> alone spills no Phi.
\<close>

theorem displace_spills_phi_of_other_block:
  "map_sum id (\<lambda>s. (spilled_phis s, map_option (map_option workset_vals \<circ> ws_start) (info s 103)))
     (belady (Suc (Suc 0)) ex_env (init_state ex_env) 103) = Inr ([5], Some (Some [6]))
   \<and> map_sum id (\<lambda>s. (spilled_phis s, map_option (map_option workset_vals \<circ> ws_end) (info s 102)))
     (belady (Suc 0) ex_env (init_state ex_env) 102) = Inr ([], Some (Some [5, 6]))
   \<and> is_Phi ex_env 5 \<and> nodes_block ex_env 5 = 102 \<and> nodes_block ex_env 8 = 103"
  by (simp add: ex_eval)

subsection \<open>Start worksets and block borders\<close>

lemma phi_starters_Inr:
  "phi_starters env f ns = Inr ps \<Longrightarrow>
     map irn ps = filter (arch_irn_consider_in_reg_alloc env) (takeWhile (is_Phi env) ns)
     \<and> (\<forall>l\<in>set ps. get_distance env f 0 (irn l) False = Inr (time l))"
proof (induction ns arbitrary: ps)
  case Nil
  then show ?case by simp
next
  case (Cons n ns)
  show ?case
  proof (cases "is_Phi env n")
    case False
    with Cons.prems show ?thesis by simp
  next
    case phi: True
    show ?thesis
    proof (cases "arch_irn_consider_in_reg_alloc env n")
      case False
      with phi Cons.prems have "phi_starters env f ns = Inr ps" by simp
      from Cons.IH[OF this] phi False show ?thesis by simp
    next
      case True
      with phi Cons.prems obtain t r where t: "get_distance env f 0 n False = Inr t"
        and r: "phi_starters env f ns = Inr r" and e: "ps = \<lparr>irn = n, time = t\<rparr> # r"
        by (auto simp: bind_err_Inr_iff)
      from Cons.IH[OF r] t e phi True show ?thesis by simp
    qed
  qed
qed

lemma live_starters_Inr:
  "live_starters env f ns = Inr ls \<Longrightarrow>
     map irn ls = filter (arch_irn_consider_in_reg_alloc env) ns
     \<and> (\<forall>l\<in>set ls. get_distance env f 0 (irn l) False = Inr (time l))"
proof (induction ns arbitrary: ls)
  case Nil
  then show ?case by simp
next
  case (Cons n ns)
  show ?case
  proof (cases "arch_irn_consider_in_reg_alloc env n")
    case False
    with Cons.prems have "live_starters env f ns = Inr ls" by simp
    from Cons.IH[OF this] False show ?thesis by simp
  next
    case True
    with Cons.prems obtain t r where t: "get_distance env f 0 n False = Inr t"
      and r: "live_starters env f ns = Inr r" and e: "ls = \<lparr>irn = n, time = t\<rparr> # r"
      by (auto simp: bind_err_Inr_iff)
    from Cons.IH[OF r] t e True show ?thesis by simp
  qed
qed


text \<open>
  C5. The start workset that \<open>compute_block_start_info\<close> gives a block it has not seen.
  With exactly one predecessor and not being the start block: \<open>belady\<close> (the argument
  \<open>rec\<close>) is first run on the predecessor if that has no info yet, and the start workset is
  a clone of the predecessor's end workset. Otherwise: the leading Phis of the block and
  its live-in values, as far as the class considers them, are stamped with their distance
  from the first instruction of the block and sorted ascending, and the start workset is
  the first \<open>min n_regs count\<close> of them, none of which is farther away than one left out.
\<close>

theorem compute_block_start_info_start_workset:
  assumes none: "info st blk = None"
    and r: "compute_block_start_info rec env st blk = Inr st'"
    and st0: "st0 = st\<lparr>info := (info st)(blk \<mapsto> \<lparr>ws_start = None, ws_end = None\<rparr>)\<rparr>"
    and pred: "pred = cfgpreds env blk ! 0"
  shows "(length (cfgpreds env blk) = 1 \<and> blk \<noteq> start_block env \<longrightarrow>
           (\<exists>st1 pred_info e bi.
               (if info st0 pred = None then rec st0 pred = Inr st1 else st1 = st0)
             \<and> info st1 pred = Some pred_info \<and> ws_end pred_info = Some e
             \<and> info st' blk = Some bi \<and> ws_start bi = Some (workset_clone e)))
       \<and> (\<not> (length (cfgpreds env blk) = 1 \<and> blk \<noteq> start_block env) \<and> sorts_by_time (loc_qsort env) \<longrightarrow>
           (\<exists>ps ls kept dropped bi w.
               map irn ps = filter (arch_irn_consider_in_reg_alloc env)
                              (takeWhile (is_Phi env) (sched env blk))
             \<and> map irn ls = filter (arch_irn_consider_in_reg_alloc env) (live_in env blk)
             \<and> (\<forall>l\<in>set (ps @ ls).
                   get_distance env (sched_first env blk) 0 (irn l) False = Inr (time l))
             \<and> mset (kept @ dropped) = mset (ps @ ls)
             \<and> sorted (map time (kept @ dropped))
             \<and> length kept = min (n_regs env) (length (ps @ ls))
             \<and> (\<forall>k\<in>set kept. \<forall>d\<in>set dropped. time k \<le> time d)
             \<and> info st' blk = Some bi \<and> ws_start bi = Some w
             \<and> len w = length kept \<and> take (len w) (vals w) = kept))"
proof (intro conjI impI)
  assume c: "length (cfgpreds env blk) = 1 \<and> blk \<noteq> start_block env"
  from cbsi_Inr[OF r none st0 pred] obtain st1 pred_info e where
    s1: "(case info st0 pred of None \<Rightarrow> rec st0 pred | Some _ \<Rightarrow> Inr st0) = Inr st1"
    and pi: "info st1 pred = Some pred_info" "ws_end pred_info = Some e"
    and sw: "set_ws_start st1 blk (workset_clone e) = Inr st'"
    unfolding if_P[OF c] by blast
  from s1 have "if info st0 pred = None then rec st0 pred = Inr st1 else st1 = st0"
    by (cases "info st0 pred") auto
  with pi set_ws_start_keeps[OF sw]
  show "\<exists>st1 pred_info e bi.
               (if info st0 pred = None then rec st0 pred = Inr st1 else st1 = st0)
             \<and> info st1 pred = Some pred_info \<and> ws_end pred_info = Some e
             \<and> info st' blk = Some bi \<and> ws_start bi = Some (workset_clone e)"
    by blast
next
  assume a: "\<not> (length (cfgpreds env blk) = 1 \<and> blk \<noteq> start_block env) \<and> sorts_by_time (loc_qsort env)"
  then have c: "\<not> (length (cfgpreds env blk) = 1 \<and> blk \<noteq> start_block env)"
    and srt: "sorts_by_time (loc_qsort env)" by simp_all
  from cbsi_Inr[OF r none st0 pred] obtain ps ls st1 where
    ps: "phi_starters env (sched_first env blk) (sched env blk) = Inr ps"
    and ls: "live_starters env (sched_first env blk) (live_in env blk) = Inr ls"
    and sw: "set_ws_start st0 blk
                       (workset_bulk_fill (new_workset env) (min (length (ps @ ls)) (n_regs env))
                          (loc_qsort env (ps @ ls))) = Inr st1"
    and e: "st' = spill_phis env blk
                           (map irn (drop (min (length (ps @ ls)) (n_regs env)) (loc_qsort env (ps @ ls))))
                           st1"
    unfolding if_not_P[OF c] by blast
  define srtd where "srtd = loc_qsort env (ps @ ls)"
  define cnt where "cnt = min (length (ps @ ls)) (n_regs env)"
  define kept where "kept = take cnt srtd"
  define dropped where "dropped = drop cnt srtd"
  define w where "w = workset_bulk_fill (new_workset env) cnt srtd"
  note q = sorts_by_timeD[OF srt, of "ps @ ls", folded srtd_def]
  have ke: "kept @ dropped = srtd" by (simp add: kept_def dropped_def)
  have lk: "length kept = cnt" using q by (simp add: kept_def cnt_def)
  have c4: "mset (kept @ dropped) = mset (ps @ ls)" using q by (simp only: ke)
  have c5: "sorted (map time (kept @ dropped))" using q by (simp only: ke)
  have c6: "length kept = min (n_regs env) (length (ps @ ls))" using lk by (simp add: cnt_def min.commute)
  have c7: "\<forall>k\<in>set kept. \<forall>d\<in>set dropped. time k \<le> time d"
    using c5 by (auto simp: sorted_append)
  have i: "info st' = info st1" by (simp add: e spill_phis_keeps)
  from set_ws_start_keeps[OF sw] i obtain bi where
    c8: "info st' blk = Some bi" "ws_start bi = Some w"
    by (auto simp: w_def cnt_def srtd_def)
  have c9: "len w = length kept" by (simp add: w_def workset_bulk_fill_def lk)
  have c10: "take (len w) (vals w) = kept"
    using lk by (simp add: w_def workset_bulk_fill_def kept_def)
  note p1 = phi_starters_Inr[OF ps]
  note p2 = live_starters_Inr[OF ls]
  have c3: "\<forall>l\<in>set (ps @ ls).
      get_distance env (sched_first env blk) 0 (irn l) False = Inr (time l)"
    using p1 p2 by auto
  from p1 p2 c3 c4 c5 c6 c7 c8 c9 c10
  show "\<exists>ps ls kept dropped bi w.
               map irn ps = filter (arch_irn_consider_in_reg_alloc env)
                              (takeWhile (is_Phi env) (sched env blk))
             \<and> map irn ls = filter (arch_irn_consider_in_reg_alloc env) (live_in env blk)
             \<and> (\<forall>l\<in>set (ps @ ls).
                   get_distance env (sched_first env blk) 0 (irn l) False = Inr (time l))
             \<and> mset (kept @ dropped) = mset (ps @ ls)
             \<and> sorted (map time (kept @ dropped))
             \<and> length kept = min (n_regs env) (length (ps @ ls))
             \<and> (\<forall>k\<in>set kept. \<forall>d\<in>set dropped. time k \<le> time d)
             \<and> info st' blk = Some bi \<and> ws_start bi = Some w
             \<and> len w = length kept \<and> take (len w) (vals w) = kept"
    by blast
qed


lemma ex_cbsi_103:
  "map_sum id (\<lambda>s. map_option ws_start (info s 103))
     (compute_block_start_info (belady (Suc 0) ex_env) ex_env (init_state ex_env) 103)
   = Inr (Some (Some \<lparr>len = 2, vals = [\<lparr>irn = 5, time = 1\<rparr>, \<lparr>irn = 6, time = 2\<rparr>]\<rparr>))"
  by (simp add: ex_eval)

lemma ex_cbsi_102:
  "map_sum id (\<lambda>s. map_option ws_start (info s 102))
     (compute_block_start_info (belady 0 ex_env) ex_env (init_state ex_env) 102)
   = Inr (Some (Some \<lparr>len = 2, vals = [\<lparr>irn = 5, time = 0\<rparr>, \<lparr>irn = 1, time = 2\<rparr>]\<rparr>))"
  by (simp add: ex_eval)

theorem compute_block_start_info_start_workset_witness:
  "(\<exists>st'. compute_block_start_info (belady (Suc 0) ex_env) ex_env (init_state ex_env) 103 = Inr st'
      \<and> info (init_state ex_env) 103 = None
      \<and> length (cfgpreds ex_env 103) = 1 \<and> 103 \<noteq> start_block ex_env
      \<and> (\<exists>st1 pred_info e bi.
            belady (Suc 0) ex_env
              ((init_state ex_env)\<lparr>info := (info (init_state ex_env))(103 \<mapsto> \<lparr>ws_start = None, ws_end = None\<rparr>)\<rparr>)
              102 = Inr st1
          \<and> info st1 102 = Some pred_info \<and> ws_end pred_info = Some e
          \<and> info st' 103 = Some bi \<and> ws_start bi = Some (workset_clone e)
          \<and> e = \<lparr>len = 2, vals = [\<lparr>irn = 5, time = 1\<rparr>, \<lparr>irn = 6, time = 2\<rparr>]\<rparr>))
   \<and> (\<exists>st'. compute_block_start_info (belady 0 ex_env) ex_env (init_state ex_env) 102 = Inr st'
      \<and> info (init_state ex_env) 102 = None
      \<and> \<not> (length (cfgpreds ex_env 102) = 1 \<and> 102 \<noteq> start_block ex_env)
      \<and> sorts_by_time (loc_qsort ex_env)
      \<and> (\<exists>ps ls kept dropped bi w.
             map irn ps = filter (arch_irn_consider_in_reg_alloc ex_env)
                            (takeWhile (is_Phi ex_env) (sched ex_env 102))
           \<and> map irn ls = filter (arch_irn_consider_in_reg_alloc ex_env) (live_in ex_env 102)
           \<and> (\<forall>l\<in>set (ps @ ls).
                 get_distance ex_env (sched_first ex_env 102) 0 (irn l) False = Inr (time l))
           \<and> mset (kept @ dropped) = mset (ps @ ls)
           \<and> sorted (map time (kept @ dropped))
           \<and> length kept = min (n_regs ex_env) (length (ps @ ls))
           \<and> (\<forall>k\<in>set kept. \<forall>d\<in>set dropped. time k \<le> time d)
           \<and> info st' 102 = Some bi \<and> ws_start bi = Some w
           \<and> len w = length kept \<and> take (len w) (vals w) = kept
           \<and> w = \<lparr>len = 2, vals = [\<lparr>irn = 5, time = 0\<rparr>, \<lparr>irn = 1, time = 2\<rparr>]\<rparr>))"
proof (intro conjI)
  define st0 where "st0 = (init_state ex_env)\<lparr>info := (info (init_state ex_env))(103 \<mapsto> \<lparr>ws_start = None, ws_end = None\<rparr>)\<rparr>"
  have n: "info (init_state ex_env) 103 = None" by (simp add: init_state_def)
  have c: "length (cfgpreds ex_env 103) = 1 \<and> 103 \<noteq> start_block ex_env" by (simp add: ex_env_sel)
  have p: "102 = cfgpreds ex_env 103 ! 0" by (simp add: ex_env_sel)
  have n0: "info st0 102 = None" by (simp add: st0_def init_state_def)
  obtain st' where r: "compute_block_start_info (belady (Suc 0) ex_env) ex_env (init_state ex_env) 103 = Inr st'"
    and v: "map_option ws_start (info st' 103)
              = Some (Some \<lparr>len = 2, vals = [\<lparr>irn = 5, time = 1\<rparr>, \<lparr>irn = 6, time = 2\<rparr>]\<rparr>)"
    using ex_cbsi_103
    by (cases "compute_block_start_info (belady (Suc 0) ex_env) ex_env (init_state ex_env) 103") auto
  from compute_block_start_info_start_workset[OF n r st0_def p] c n0
  obtain st1 pred_info e bi where
    x: "belady (Suc 0) ex_env st0 102 = Inr st1" "info st1 102 = Some pred_info"
       "ws_end pred_info = Some e" "info st' 103 = Some bi" "ws_start bi = Some (workset_clone e)"
    by auto
  from x v have "e = \<lparr>len = 2, vals = [\<lparr>irn = 5, time = 1\<rparr>, \<lparr>irn = 6, time = 2\<rparr>]\<rparr>"
    by (simp add: workset_clone_def)
  with x r n c show "\<exists>st'. compute_block_start_info (belady (Suc 0) ex_env) ex_env (init_state ex_env) 103 = Inr st'
      \<and> info (init_state ex_env) 103 = None
      \<and> length (cfgpreds ex_env 103) = 1 \<and> 103 \<noteq> start_block ex_env
      \<and> (\<exists>st1 pred_info e bi.
            belady (Suc 0) ex_env
              ((init_state ex_env)\<lparr>info := (info (init_state ex_env))(103 \<mapsto> \<lparr>ws_start = None, ws_end = None\<rparr>)\<rparr>)
              102 = Inr st1
          \<and> info st1 102 = Some pred_info \<and> ws_end pred_info = Some e
          \<and> info st' 103 = Some bi \<and> ws_start bi = Some (workset_clone e)
          \<and> e = \<lparr>len = 2, vals = [\<lparr>irn = 5, time = 1\<rparr>, \<lparr>irn = 6, time = 2\<rparr>]\<rparr>)"
    unfolding st0_def by blast
next
  have n: "info (init_state ex_env) 102 = None" by (simp add: init_state_def)
  have c: "\<not> (length (cfgpreds ex_env 102) = 1 \<and> 102 \<noteq> start_block ex_env)" by (simp add: ex_env_sel)
  have s: "sorts_by_time (loc_qsort ex_env)" by (simp add: ex_env_sel sorts_by_time_sort_key)
  obtain st' where r: "compute_block_start_info (belady 0 ex_env) ex_env (init_state ex_env) 102 = Inr st'"
    and v: "map_option ws_start (info st' 102)
              = Some (Some \<lparr>len = 2, vals = [\<lparr>irn = 5, time = 0\<rparr>, \<lparr>irn = 1, time = 2\<rparr>]\<rparr>)"
    using ex_cbsi_102
    by (cases "compute_block_start_info (belady 0 ex_env) ex_env (init_state ex_env) 102") auto
  from compute_block_start_info_start_workset[OF n r refl refl] c s
  obtain ps ls kept dropped bi w where
    x: "map irn ps = filter (arch_irn_consider_in_reg_alloc ex_env)
                            (takeWhile (is_Phi ex_env) (sched ex_env 102))"
       "map irn ls = filter (arch_irn_consider_in_reg_alloc ex_env) (live_in ex_env 102)"
       "\<forall>l\<in>set (ps @ ls).
                 get_distance ex_env (sched_first ex_env 102) 0 (irn l) False = Inr (time l)"
       "mset (kept @ dropped) = mset (ps @ ls)"
       "sorted (map time (kept @ dropped))"
       "length kept = min (n_regs ex_env) (length (ps @ ls))"
       "\<forall>k\<in>set kept. \<forall>d\<in>set dropped. time k \<le> time d"
       "info st' 102 = Some bi" "ws_start bi = Some w"
       "len w = length kept" "take (len w) (vals w) = kept"
    by blast
  from x v have "w = \<lparr>len = 2, vals = [\<lparr>irn = 5, time = 0\<rparr>, \<lparr>irn = 1, time = 2\<rparr>]\<rparr>" by simp
  with x r n c s show "\<exists>st'. compute_block_start_info (belady 0 ex_env) ex_env (init_state ex_env) 102 = Inr st'
      \<and> info (init_state ex_env) 102 = None
      \<and> \<not> (length (cfgpreds ex_env 102) = 1 \<and> 102 \<noteq> start_block ex_env)
      \<and> sorts_by_time (loc_qsort ex_env)
      \<and> (\<exists>ps ls kept dropped bi w.
             map irn ps = filter (arch_irn_consider_in_reg_alloc ex_env)
                            (takeWhile (is_Phi ex_env) (sched ex_env 102))
           \<and> map irn ls = filter (arch_irn_consider_in_reg_alloc ex_env) (live_in ex_env 102)
           \<and> (\<forall>l\<in>set (ps @ ls).
                 get_distance ex_env (sched_first ex_env 102) 0 (irn l) False = Inr (time l))
           \<and> mset (kept @ dropped) = mset (ps @ ls)
           \<and> sorted (map time (kept @ dropped))
           \<and> length kept = min (n_regs ex_env) (length (ps @ ls))
           \<and> (\<forall>k\<in>set kept. \<forall>d\<in>set dropped. time k \<le> time d)
           \<and> info st' 102 = Some bi \<and> ws_start bi = Some w
           \<and> len w = length kept \<and> take (len w) (vals w) = kept
           \<and> w = \<lparr>len = 2, vals = [\<lparr>irn = 5, time = 0\<rparr>, \<lparr>irn = 1, time = 2\<rparr>]\<rparr>)"
    by blast
qed


lemma fix_values_Inr:
  "fix_values env blk i wsp vs st = Inr st' \<Longrightarrow>
     st' = st\<lparr>edge_reloads := edge_reloads st @ edge_fixup_spec env blk i vs (opt_vals wsp)\<rparr>"
proof (induction vs arbitrary: st)
  case Nil
  then show ?case by (simp add: edge_fixup_spec_def)
next
  case (Cons v vs)
  from Cons.prems obtain irnb where
    g: "(if is_Phi env v \<and> blk = nodes_block env v then get_irn_n env v i else Inr v) = Inr irnb"
    and r: "(if is_Unknown env irnb then fix_values env blk i wsp vs st
          else (case wsp of
                  None \<Rightarrow> Inl Null_deref
                | Some p \<Rightarrow>
                    if irnb \<in> set (workset_vals p) then fix_values env blk i wsp vs st
                    else fix_values env blk i wsp vs (be_add_reload_on_edge st irnb blk i))) = Inr st'"
    by (auto simp: bind_err_Inr_iff)
  from g have b: "border_value_spec env blk i v = irnb"
    by (auto simp: border_value_spec_def get_irn_n_def split: if_splits)
  have step: "edge_fixup_spec env blk i (v # vs) (opt_vals wsp) =
      (if \<not> is_Unknown env irnb \<and> irnb \<notin> set (opt_vals wsp) then [(irnb, blk, i)] else [])
      @ edge_fixup_spec env blk i vs (opt_vals wsp)"
    using b by (simp add: edge_fixup_spec_def)
  show ?case
  proof (cases "is_Unknown env irnb")
    case True
    with r have "fix_values env blk i wsp vs st = Inr st'" by simp
    from Cons.IH[OF this] True step show ?thesis by simp
  next
    case False
    with r obtain p where p: "wsp = Some p" by (cases wsp) auto
    show ?thesis
    proof (cases "irnb \<in> set (workset_vals p)")
      case True
      with r False p have "fix_values env blk i wsp vs st = Inr st'" by simp
      from Cons.IH[OF this] True step p show ?thesis by (simp add: opt_vals_def)
    next
      case nin: False
      with r False p have "fix_values env blk i wsp vs (be_add_reload_on_edge st irnb blk i) = Inr st'"
        by simp
      from Cons.IH[OF this] nin False step p show ?thesis
        by (simp add: opt_vals_def be_add_reload_on_edge_def)
    qed
  qed
qed

lemma fix_preds_Inr:
  "fix_preds env blk wsb ips st = Inr st' \<Longrightarrow>
     st' = st\<lparr>edge_reloads := edge_reloads st @
              concat (map (\<lambda>(i, pred). edge_fixup_spec env blk i (opt_vals wsb) (end_vals_of st pred)) ips)\<rparr>"
proof (induction ips arbitrary: st)
  case Nil
  then show ?case by simp
next
  case (Cons ip ips)
  obtain i pred where ip: "ip = (i, pred)" by (cases ip)
  from Cons.prems ip obtain pred_info b st1 where pi: "info st pred = Some pred_info"
    and b: "wsb = Some b"
    and f: "fix_values env blk i (ws_end pred_info) (workset_vals b) st = Inr st1"
    and r: "fix_preds env blk wsb ips st1 = Inr st'"
    by (auto simp: bind_err_Inr_iff split: option.splits)
  note e1 = fix_values_Inr[OF f]
  have i1: "info st1 = info st" by (subst e1) simp
  have ev: "end_vals_of st1 = end_vals_of st" by (simp add: end_vals_of_def i1 fun_eq_iff)
  from Cons.IH[OF r] have "st' = st1\<lparr>edge_reloads := edge_reloads st1 @
              concat (map (\<lambda>(i, pred). edge_fixup_spec env blk i (opt_vals wsb) (end_vals_of st pred)) ips)\<rparr>"
    by (simp add: ev)
  also have "\<dots> = st\<lparr>edge_reloads := edge_reloads st @
              concat (map (\<lambda>(i, pred). edge_fixup_spec env blk i (opt_vals wsb) (end_vals_of st pred)) (ip # ips))\<rparr>"
    by (subst (1 2) e1) (simp add: ip end_vals_of_def pi b opt_vals_def)
  finally show ?case .
qed

lemma mem_edge_fixup_spec:
  "(x, b, j) \<in> set (edge_fixup_spec env blk i start_vals end_vals) \<longleftrightarrow>
     b = blk \<and> j = i \<and> \<not> is_Unknown env x \<and> x \<notin> set end_vals
     \<and> x \<in> border_value_spec env blk i ` set start_vals"
  by (auto simp: edge_fixup_spec_def)

text \<open>
  C6. \<open>fix_block_borders\<close> adds to the requested edge reloads exactly what the edge fixup
  of the specification asks for, predecessor by predecessor, and changes nothing else.
  For the predecessor at position \<open>i\<close> and a value of the start workset, taken as its
  \<open>i\<close>-th argument when it is a Phi of the block: a reload on that edge is among the new
  requests if and only if the value is not Unknown and not in the end workset of the
  predecessor.
\<close>

theorem fix_block_borders_edge_reloads:
  assumes r: "fix_block_borders env st blk = Inr st'"
    and new: "new = concat (map (\<lambda>(i, pred).
                 edge_fixup_spec env blk i (start_vals_of st blk) (end_vals_of st pred))
                 (enumerate 0 (cfgpreds env blk)))"
  shows "st' = st\<lparr>edge_reloads := edge_reloads st @ new\<rparr>
     \<and> (\<forall>i < length (cfgpreds env blk). \<forall>v \<in> set (start_vals_of st blk).
          (border_value_spec env blk i v, blk, i) \<in> set new \<longleftrightarrow>
            \<not> is_Unknown env (border_value_spec env blk i v)
            \<and> border_value_spec env blk i v \<notin> set (end_vals_of st (cfgpreds env blk ! i)))"
proof
  from r obtain bi where bi: "info st blk = Some bi"
    and f: "fix_preds env blk (ws_start bi) (enumerate 0 (cfgpreds env blk)) st = Inr st'"
    by (auto simp: fix_block_borders_def split: option.splits)
  have "start_vals_of st blk = opt_vals (ws_start bi)" by (simp add: start_vals_of_def bi)
  with fix_preds_Inr[OF f] show "st' = st\<lparr>edge_reloads := edge_reloads st @ new\<rparr>"
    by (simp add: new)
next
  show "\<forall>i < length (cfgpreds env blk). \<forall>v \<in> set (start_vals_of st blk).
          (border_value_spec env blk i v, blk, i) \<in> set new \<longleftrightarrow>
            \<not> is_Unknown env (border_value_spec env blk i v)
            \<and> border_value_spec env blk i v \<notin> set (end_vals_of st (cfgpreds env blk ! i))"
  proof (intro allI impI ballI)
    fix i v assume i: "i < length (cfgpreds env blk)" and v: "v \<in> set (start_vals_of st blk)"
    let ?x = "border_value_spec env blk i v"
    have "(?x, blk, i) \<in> set new \<longleftrightarrow>
          (\<exists>p \<in> set (enumerate 0 (cfgpreds env blk)).
             (?x, blk, i) \<in> set (edge_fixup_spec env blk (fst p) (start_vals_of st blk) (end_vals_of st (snd p))))"
      unfolding new by (simp add: case_prod_beta)
    also have "\<dots> \<longleftrightarrow> (?x, blk, i) \<in> set (edge_fixup_spec env blk i (start_vals_of st blk)
                                    (end_vals_of st (cfgpreds env blk ! i)))"
    proof
      assume "\<exists>p \<in> set (enumerate 0 (cfgpreds env blk)).
             (?x, blk, i) \<in> set (edge_fixup_spec env blk (fst p) (start_vals_of st blk) (end_vals_of st (snd p)))"
      then obtain p where p: "p \<in> set (enumerate 0 (cfgpreds env blk))"
        and m: "(?x, blk, i) \<in> set (edge_fixup_spec env blk (fst p) (start_vals_of st blk) (end_vals_of st (snd p)))"
        by blast
      from m have "fst p = i" by (simp add: mem_edge_fixup_spec)
      moreover from p have "snd p = cfgpreds env blk ! fst p" by (simp add: in_set_enumerate_eq)
      ultimately show "(?x, blk, i) \<in> set (edge_fixup_spec env blk i (start_vals_of st blk)
                                    (end_vals_of st (cfgpreds env blk ! i)))"
        using m by simp
    next
      assume m: "(?x, blk, i) \<in> set (edge_fixup_spec env blk i (start_vals_of st blk)
                                    (end_vals_of st (cfgpreds env blk ! i)))"
      have "(i, cfgpreds env blk ! i) \<in> set (enumerate 0 (cfgpreds env blk))"
        using i by (simp add: in_set_enumerate_eq)
      with m show "\<exists>p \<in> set (enumerate 0 (cfgpreds env blk)).
             (?x, blk, i) \<in> set (edge_fixup_spec env blk (fst p) (start_vals_of st blk) (end_vals_of st (snd p)))"
        by (intro bexI[of _ "(i, cfgpreds env blk ! i)"]) simp_all
    qed
    also have "\<dots> \<longleftrightarrow> \<not> is_Unknown env ?x \<and> ?x \<notin> set (end_vals_of st (cfgpreds env blk ! i))"
      using v by (auto simp: mem_edge_fixup_spec)
    finally show "(?x, blk, i) \<in> set new \<longleftrightarrow>
            \<not> is_Unknown env ?x \<and> ?x \<notin> set (end_vals_of st (cfgpreds env blk ! i))" .
  qed
qed

lemma ex_fix_102:
  "fix_block_borders ex_env ex_border_st 102 = Inr (ex_border_st\<lparr>edge_reloads := [(4, 102, 1)]\<rparr>)"
  by (simp add: fix_block_borders_def ex_border_st_def init_state_def ex_env_sel get_irn_n_def
        workset_vals_def be_add_reload_on_edge_def enumerate_eq_zip upt_rec)

theorem fix_block_borders_edge_reloads_witness:
  "fix_block_borders ex_env ex_border_st 102 = Inr (ex_border_st\<lparr>edge_reloads := [(4, 102, 1)]\<rparr>)
   \<and> concat (map (\<lambda>(i, pred).
                 edge_fixup_spec ex_env 102 i (start_vals_of ex_border_st 102) (end_vals_of ex_border_st pred))
                 (enumerate 0 (cfgpreds ex_env 102))) = [(4, 102, 1)]
   \<and> (1 :: nat) < length (cfgpreds ex_env 102) \<and> 5 \<in> set (start_vals_of ex_border_st 102)
   \<and> border_value_spec ex_env 102 1 5 = 4
   \<and> \<not> is_Unknown ex_env 4 \<and> 4 \<notin> set (end_vals_of ex_border_st (cfgpreds ex_env 102 ! 1))
   \<and> border_value_spec ex_env 102 0 5 = 3
   \<and> 3 \<in> set (end_vals_of ex_border_st (cfgpreds ex_env 102 ! 0))"
proof -
  note t = fix_block_borders_edge_reloads[OF ex_fix_102 refl]
  have e: "edge_reloads ex_border_st = []" by (simp add: ex_border_st_def init_state_def)
  have "edge_reloads (ex_border_st\<lparr>edge_reloads := [(4, 102, 1)]\<rparr>)
      = edge_reloads ex_border_st @ concat (map (\<lambda>(i, pred).
                 edge_fixup_spec ex_env 102 i (start_vals_of ex_border_st 102) (end_vals_of ex_border_st pred))
                 (enumerate 0 (cfgpreds ex_env 102)))"
    using arg_cong[OF conjunct1[OF t], of edge_reloads] by simp
  then have c: "concat (map (\<lambda>(i, pred).
                 edge_fixup_spec ex_env 102 i (start_vals_of ex_border_st 102) (end_vals_of ex_border_st pred))
                 (enumerate 0 (cfgpreds ex_env 102))) = [(4, 102, 1)]"
    by (simp add: e)
  have l: "(1 :: nat) < length (cfgpreds ex_env 102)" by (simp add: ex_env_sel)
  have m: "5 \<in> set (start_vals_of ex_border_st 102)"
    by (simp add: start_vals_of_def ex_border_st_def opt_vals_def workset_vals_def)
  have b: "border_value_spec ex_env 102 1 5 = 4" "border_value_spec ex_env 102 0 5 = 3"
    by (simp_all add: border_value_spec_def ex_env_sel)
  have z: "0 < length (cfgpreds ex_env 102)" by (simp add: ex_env_sel)
  from t l m have "(border_value_spec ex_env 102 1 5, 102, 1) \<in> set (concat (map (\<lambda>(i, pred).
                 edge_fixup_spec ex_env 102 i (start_vals_of ex_border_st 102) (end_vals_of ex_border_st pred))
                 (enumerate 0 (cfgpreds ex_env 102)))) \<longleftrightarrow>
            \<not> is_Unknown ex_env (border_value_spec ex_env 102 1 5)
            \<and> border_value_spec ex_env 102 1 5 \<notin> set (end_vals_of ex_border_st (cfgpreds ex_env 102 ! 1))"
    by blast
  then have u: "\<not> is_Unknown ex_env 4 \<and> 4 \<notin> set (end_vals_of ex_border_st (cfgpreds ex_env 102 ! 1))"
    unfolding c b by simp
  from t z m have "(border_value_spec ex_env 102 0 5, 102, 0) \<in> set (concat (map (\<lambda>(i, pred).
                 edge_fixup_spec ex_env 102 i (start_vals_of ex_border_st 102) (end_vals_of ex_border_st pred))
                 (enumerate 0 (cfgpreds ex_env 102)))) \<longleftrightarrow>
            \<not> is_Unknown ex_env (border_value_spec ex_env 102 0 5)
            \<and> border_value_spec ex_env 102 0 5 \<notin> set (end_vals_of ex_border_st (cfgpreds ex_env 102 ! 0))"
    by blast
  then have w: "3 \<in> set (end_vals_of ex_border_st (cfgpreds ex_env 102 ! 0))"
    unfolding c b by (simp add: ex_env_sel(10))
  from ex_fix_102 c l m b u w show ?thesis by blast
qed

subsection \<open>Chordal allocator\<close>

lemma bitset_contains_subset:
  "bitset_contains lhs rhs \<longleftrightarrow> set (bitset_foreach lhs) \<subseteq> set (bitset_foreach rhs)"
  by (auto simp: bitset_contains_def bitset_foreach_def list_all_iff)

lemma add_operand_cases:
  assumes "add_operand n ops op g = Inr g'"
  shows "(alloc_nodes g' = alloc_nodes g \<and> bp_edges g' = bp_edges g)
       \<or> (carrier op \<notin> set (alloc_nodes g) \<and> alloc_nodes g' = alloc_nodes g @ [carrier op]
          \<and> (\<exists>bs. get_decisive_partner_regs ops op = Inr bs
                \<and> bp_edges g' = bp_edges g @
                     (case bs of None \<Rightarrow> []
                      | Some b \<Rightarrow> map (\<lambda>col. (length (alloc_nodes g), col)) (bitset_foreach b))))"
  using assms unfolding add_operand_def Let_def
  by (auto split: option.splits if_splits sum.splits)

lemma add_operand_fresh:
  assumes "add_operand n ops op g = Inr g'"
    and "partner op = Some j" and "partners g (carrier (ops ! j)) = None"
    and "carrier op \<notin> set (alloc_nodes g)"
  shows "alloc_nodes g' = alloc_nodes g @ [carrier op]
       \<and> (\<exists>bs. get_decisive_partner_regs ops op = Inr bs
             \<and> bp_edges g' = bp_edges g @
                  (case bs of None \<Rightarrow> []
                   | Some b \<Rightarrow> map (\<lambda>col. (length (alloc_nodes g), col)) (bitset_foreach b)))"
  using assms unfolding add_operand_def Let_def
  by (auto split: option.splits if_splits sum.splits)

lemma add_operands_append:
  "add_operands n ops (xs @ ys) g =
     (case add_operands n ops xs g of Inl e \<Rightarrow> Inl e | Inr g1 \<Rightarrow> add_operands n ops ys g1)"
  by (induction xs arbitrary: g) (auto split: sum.splits)

lemma add_operands_grows:
  "add_operands n ops xs g = Inr g' \<Longrightarrow>
     (\<exists>more. alloc_nodes g' = alloc_nodes g @ more)
     \<and> (\<exists>new. bp_edges g' = bp_edges g @ new \<and> (\<forall>e \<in> set new. length (alloc_nodes g) \<le> fst e))"
proof (induction xs arbitrary: g)
  case Nil
  then show ?case by simp
next
  case (Cons x xs)
  from Cons.prems obtain g1 where s: "add_operand n ops x g = Inr g1"
    and r: "add_operands n ops xs g1 = Inr g'" by (auto split: sum.splits)
  from Cons.IH[OF r] obtain more new where
    m: "alloc_nodes g' = alloc_nodes g1 @ more" and e: "bp_edges g' = bp_edges g1 @ new"
    and l: "\<forall>e \<in> set new. length (alloc_nodes g1) \<le> fst e" by blast
  from add_operand_cases[OF s] show ?case
  proof
    assume "alloc_nodes g1 = alloc_nodes g \<and> bp_edges g1 = bp_edges g"
    with m e l show ?thesis by simp
  next
    assume a: "carrier x \<notin> set (alloc_nodes g) \<and> alloc_nodes g1 = alloc_nodes g @ [carrier x]
          \<and> (\<exists>bs. get_decisive_partner_regs ops x = Inr bs
                \<and> bp_edges g1 = bp_edges g @
                     (case bs of None \<Rightarrow> []
                      | Some b \<Rightarrow> map (\<lambda>col. (length (alloc_nodes g), col)) (bitset_foreach b)))"
    then obtain bs where b: "bp_edges g1 = bp_edges g @
                     (case bs of None \<Rightarrow> []
                      | Some b \<Rightarrow> map (\<lambda>col. (length (alloc_nodes g), col)) (bitset_foreach b))"
      by blast
    have "\<exists>new'. bp_edges g' = bp_edges g @ new' \<and> (\<forall>e \<in> set new'. length (alloc_nodes g) \<le> fst e)"
    proof (intro exI conjI)
      show "bp_edges g' = bp_edges g @ ((case bs of None \<Rightarrow> []
                      | Some b \<Rightarrow> map (\<lambda>col. (length (alloc_nodes g), col)) (bitset_foreach b)) @ new)"
        using e b by simp
      show "\<forall>e \<in> set ((case bs of None \<Rightarrow> []
                      | Some b \<Rightarrow> map (\<lambda>col. (length (alloc_nodes g), col)) (bitset_foreach b)) @ new).
                 length (alloc_nodes g) \<le> fst e"
        using l a by (auto split: option.splits)
    qed
    with m a show ?thesis by simp
  qed
qed

lemma add_operands_edges_bounded:
  assumes "add_operands n ops xs g = Inr g'"
    and "\<forall>e \<in> set (bp_edges g). fst e < length (alloc_nodes g)"
  shows "\<forall>e \<in> set (bp_edges g'). fst e < length (alloc_nodes g')"
  using assms
proof (induction xs arbitrary: g)
  case Nil
  then show ?case by simp
next
  case (Cons x xs)
  from Cons.prems obtain g1 where s: "add_operand n ops x g = Inr g1"
    and r: "add_operands n ops xs g1 = Inr g'" by (auto split: sum.splits)
  have "\<forall>e \<in> set (bp_edges g1). fst e < length (alloc_nodes g1)"
    using add_operand_cases[OF s] Cons.prems(2) by (fastforce split: option.splits simp: less_Suc_eq)
  from Cons.IH[OF r this] show ?case .
qed


lemma apply_matching_fails:
  "k \<in> set idxs \<Longrightarrow> \<not> assignment ! k \<ge> 0 \<Longrightarrow> \<forall>i \<in> set idxs. i < length assignment \<Longrightarrow>
     apply_matching g assignment idxs reg_map = Inl No_register_assigned"
proof (induction idxs arbitrary: reg_map)
  case Nil
  then show ?case by simp
next
  case (Cons i idxs)
  show ?case
  proof (cases "assignment ! i \<ge> 0")
    case False
    with Cons.prems show ?thesis by simp
  next
    case True
    with Cons.prems have "k \<in> set idxs" by auto
    from Cons.IH[OF this Cons.prems(2)] Cons.prems(3) True show ?thesis
      by (simp add: Let_def)
  qed
qed

text \<open>
  C4. The decisive constraint of an operand: its own \<open>regs\<close> when it has no partner;
  with a partner (of the same class), its own \<open>regs\<close> when they are a subset of the
  partner's, else the partner's \<open>regs\<close> when they are a subset of its own, else none. An
  operand without a decisive constraint that enters the bipartite graph becomes a left
  node without any edge, and for every matching that respects the edges the allocator
  stops at the assertion that a register must have been assigned.
\<close>

theorem decisive_partner_regs:
  "(partner o1 = None \<longrightarrow> get_decisive_partner_regs ops o1 = Inr (Some (regs o1)))
   \<and> (partner o1 = Some j \<and> j < length ops \<and> req_cls o1 = req_cls (ops ! j) \<longrightarrow>
        get_decisive_partner_regs ops o1 =
          Inr (if set (bitset_foreach (regs o1)) \<subseteq> set (bitset_foreach (regs (ops ! j)))
               then Some (regs o1)
               else if set (bitset_foreach (regs (ops ! j))) \<subseteq> set (bitset_foreach (regs o1))
               then Some (regs (ops ! j))
               else None))
   \<and> (add_operands n ops pre empty_graph = Inr g1
        \<and> partner o1 = Some j \<and> partners g1 (carrier (ops ! j)) = None
        \<and> carrier o1 \<notin> set (alloc_nodes g1)
        \<and> get_decisive_partner_regs ops o1 = Inr None
        \<and> add_operands n ops (o1 # rest) g1 = Inr g'
        \<and> respects_edges (bp_edges g') assignment
        \<and> length (alloc_nodes g') \<le> length assignment
      \<longrightarrow> alloc_nodes g' ! length (alloc_nodes g1) = carrier o1
        \<and> (\<forall>col. (length (alloc_nodes g1), col) \<notin> set (bp_edges g'))
        \<and> apply_matching g' assignment [0..<length (alloc_nodes g')] reg_map
             = Inl No_register_assigned)"
proof (intro conjI impI)
  assume "partner o1 = None"
  then show "get_decisive_partner_regs ops o1 = Inr (Some (regs o1))"
    by (simp add: get_decisive_partner_regs_def)
next
  assume "partner o1 = Some j \<and> j < length ops \<and> req_cls o1 = req_cls (ops ! j)"
  then show "get_decisive_partner_regs ops o1 =
          Inr (if set (bitset_foreach (regs o1)) \<subseteq> set (bitset_foreach (regs (ops ! j)))
               then Some (regs o1)
               else if set (bitset_foreach (regs (ops ! j))) \<subseteq> set (bitset_foreach (regs o1))
               then Some (regs (ops ! j))
               else None)"
    by (simp add: get_decisive_partner_regs_def Let_def bitset_contains_subset)
next
  assume a: "add_operands n ops pre empty_graph = Inr g1
        \<and> partner o1 = Some j \<and> partners g1 (carrier (ops ! j)) = None
        \<and> carrier o1 \<notin> set (alloc_nodes g1)
        \<and> get_decisive_partner_regs ops o1 = Inr None
        \<and> add_operands n ops (o1 # rest) g1 = Inr g'
        \<and> respects_edges (bp_edges g') assignment
        \<and> length (alloc_nodes g') \<le> length assignment"
  define k where "k = length (alloc_nodes g1)"
  from a have pre: "add_operands n ops pre empty_graph = Inr g1" by simp
  have b1: "\<forall>e \<in> set (bp_edges g1). fst e < k"
    unfolding k_def by (rule add_operands_edges_bounded[OF pre]) (simp add: empty_graph_def)
  from a obtain g2 where s: "add_operand n ops o1 g1 = Inr g2"
    and r: "add_operands n ops rest g2 = Inr g'" by (auto split: sum.splits)
  from add_operand_fresh[OF s] a have n2: "alloc_nodes g2 = alloc_nodes g1 @ [carrier o1]"
    and e2: "bp_edges g2 = bp_edges g1" by auto
  from add_operands_grows[OF r] n2 e2 obtain more new where
    m: "alloc_nodes g' = (alloc_nodes g1 @ [carrier o1]) @ more"
    and e: "bp_edges g' = bp_edges g1 @ new"
    and l: "\<forall>e \<in> set new. Suc k \<le> fst e"
    by (auto simp: k_def)
  have c1: "alloc_nodes g' ! k = carrier o1" by (simp add: m k_def nth_append)
  have c2: "\<forall>col. (k, col) \<notin> set (bp_edges g')"
    using b1 l by (fastforce simp: e)
  have kl: "k < length (alloc_nodes g')" by (simp add: m k_def)
  with a have ka: "k < length assignment" by simp
  have neg: "\<not> assignment ! k \<ge> 0"
  proof
    assume "assignment ! k \<ge> 0"
    with a ka have "(k, nat (assignment ! k)) \<in> set (bp_edges g')"
      by (simp add: respects_edges_def)
    with c2 show False by blast
  qed
  have c3: "apply_matching g' assignment [0..<length (alloc_nodes g')] reg_map
             = Inl No_register_assigned"
    by (rule apply_matching_fails[of k]) (use kl neg a in auto)
  from c1 show "alloc_nodes g' ! length (alloc_nodes g1) = carrier o1" by (simp add: k_def)
  from c2 show "\<forall>col. (length (alloc_nodes g1), col) \<notin> set (bp_edges g')" by (simp add: k_def)
  from c3 show "apply_matching g' assignment [0..<length (alloc_nodes g')] reg_map
             = Inl No_register_assigned" .
qed


lemma ex_bitset_foreach:
  "bitset_foreach [True, True, False] = [0, 1]" "bitset_foreach [False, True, True] = [1, 2]"
  "bitset_foreach [True, False, False] = [0]" "bitset_foreach [False, False, True] = [2]"
  by (simp_all add: bitset_foreach_def upt_rec)

lemma ex_add_operands:
  "add_operands 3 ex_ops (ex_ops ! 0 # [ex_ops ! 1]) empty_graph = Inr ex_graph"
  by (simp add: ex_ops_def empty_graph_def ex_graph_def add_operand_def
        get_decisive_partner_regs_def bitset_contains_def ex_bitset_foreach Let_def)

theorem decisive_partner_regs_witness:
  "partner (ex_ops_sub ! 2) = None
   \<and> get_decisive_partner_regs ex_ops_sub (ex_ops_sub ! 2) = Inr (Some [False, False, True])
   \<and> get_decisive_partner_regs ex_ops_sub (ex_ops_sub ! 0) = Inr (Some [True, False, False])
   \<and> get_decisive_partner_regs ex_ops_sub (ex_ops_sub ! 1) = Inr (Some [True, False, False])
   \<and> get_decisive_partner_regs ex_ops (ex_ops ! 0) = Inr None
   \<and> add_operands 3 ex_ops [] empty_graph = Inr empty_graph
   \<and> add_operands 3 ex_ops (ex_ops ! 0 # [ex_ops ! 1]) empty_graph = Inr ex_graph
   \<and> respects_edges (bp_edges ex_graph) [- 1, - 1, - 1]
   \<and> alloc_nodes ex_graph ! 0 = 50
   \<and> apply_matching ex_graph [- 1, - 1, - 1] [0..<length (alloc_nodes ex_graph)] (\<lambda>n. None)
        = Inl No_register_assigned"
proof -
  have s2: "partner (ex_ops_sub ! 2) = None" by (simp add: ex_ops_sub_def)
  have s0: "partner (ex_ops_sub ! 0) = Some 1 \<and> 1 < length ex_ops_sub
            \<and> req_cls (ex_ops_sub ! 0) = req_cls (ex_ops_sub ! 1)"
    and s1: "partner (ex_ops_sub ! 1) = Some 0 \<and> 0 < length ex_ops_sub
            \<and> req_cls (ex_ops_sub ! 1) = req_cls (ex_ops_sub ! 0)"
    by (simp_all add: ex_ops_sub_def)
  have o0: "partner (ex_ops ! 0) = Some 1 \<and> 1 < length ex_ops
            \<and> req_cls (ex_ops ! 0) = req_cls (ex_ops ! 1)"
    by (simp add: ex_ops_def)
  have r2: "get_decisive_partner_regs ex_ops_sub (ex_ops_sub ! 2) = Inr (Some [False, False, True])"
    using decisive_partner_regs[where ?o1.0 = "ex_ops_sub ! 2" and ops = ex_ops_sub] s2
    by (simp add: ex_ops_sub_def)
  have r0: "get_decisive_partner_regs ex_ops_sub (ex_ops_sub ! 0) = Inr (Some [True, False, False])"
    using decisive_partner_regs[where ?o1.0 = "ex_ops_sub ! 0" and ops = ex_ops_sub and j = 1] s0
    by (simp add: ex_ops_sub_def ex_bitset_foreach)
  have r1: "get_decisive_partner_regs ex_ops_sub (ex_ops_sub ! 1) = Inr (Some [True, False, False])"
    using decisive_partner_regs[where ?o1.0 = "ex_ops_sub ! 1" and ops = ex_ops_sub and j = 0] s1
    by (simp add: ex_ops_sub_def ex_bitset_foreach)
  have rn: "get_decisive_partner_regs ex_ops (ex_ops ! 0) = Inr None"
    using decisive_partner_regs[where ?o1.0 = "ex_ops ! 0" and ops = ex_ops and j = 1] o0
    by (simp add: ex_ops_def ex_bitset_foreach)
  have p: "add_operands 3 ex_ops [] empty_graph = Inr empty_graph" by simp
  have f: "partners empty_graph (carrier (ex_ops ! 1)) = None"
    "carrier (ex_ops ! 0) \<notin> set (alloc_nodes empty_graph)"
    by (simp_all add: empty_graph_def)
  have re: "respects_edges (bp_edges ex_graph) [- 1, - 1, - 1]"
    by (simp add: respects_edges_def ex_graph_def less_Suc_eq numeral_3_eq_3)
  have le: "length (alloc_nodes ex_graph) \<le> length [- 1, - 1, - 1 :: int]"
    by (simp add: ex_graph_def)
  from decisive_partner_regs[where ?o1.0 = "ex_ops ! 0" and ops = ex_ops and j = 1
      and n = 3 and pre = "[]" and ?g1.0 = empty_graph and rest = "[ex_ops ! 1]"
      and g' = ex_graph and assignment = "[- 1, - 1, - 1]" and reg_map = "\<lambda>n. None"]
    p o0 f rn ex_add_operands re le
  have "alloc_nodes ex_graph ! length (alloc_nodes empty_graph) = carrier (ex_ops ! 0)
        \<and> apply_matching ex_graph [- 1, - 1, - 1] [0..<length (alloc_nodes ex_graph)] (\<lambda>n. None)
             = Inl No_register_assigned"
    by blast
  then have "alloc_nodes ex_graph ! 0 = 50
        \<and> apply_matching ex_graph [- 1, - 1, - 1] [0..<length (alloc_nodes ex_graph)] (\<lambda>n. None)
             = Inl No_register_assigned"
    by (simp add: empty_graph_def ex_ops_def)
  with s2 r2 r0 r1 rn p ex_add_operands re show ?thesis by blast
qed


lemma bitset_next_set_0_Some:
  "bitset_next_set bs 0 = Some i \<longleftrightarrow> i < length bs \<and> bs ! i \<and> (\<forall>j<i. \<not> bs ! j)"
proof (induction bs arbitrary: i)
  case Nil
  then show ?case by simp
next
  case (Cons b bs)
  show ?case
  proof (cases b)
    case True
    then show ?thesis by (cases i) auto
  next
    case False
    show ?thesis
    proof (cases i)
      case 0
      with False show ?thesis by auto
    next
      case (Suc k)
      have "(\<forall>j<Suc k. \<not> (b # bs) ! j) \<longleftrightarrow> (\<forall>j<k. \<not> bs ! j)"
        using False by (auto simp: less_Suc_eq_0_disj)
      with False Suc Cons.IH[of k] show ?thesis by auto
    qed
  qed
qed

lemma bitset_next_set_0_None:
  "bitset_next_set bs 0 = None \<longleftrightarrow> (\<forall>j<length bs. \<not> bs ! j)"
proof (induction bs)
  case Nil
  then show ?case by simp
next
  case (Cons b bs)
  then show ?case by (auto simp: less_Suc_eq_0_disj)
qed

lemma free_bit:
  "i < length cs \<Longrightarrow> i < length al \<Longrightarrow>
     bitset_and (bitset_flip_all cs) al ! i = (\<not> cs ! i \<and> al ! i)"
  by (simp add: bitset_and_def bitset_flip_all_def)

lemma free_length:
  "length (bitset_and (bitset_flip_all cs) al) = min (length cs) (length al)"
  by (simp add: bitset_and_def bitset_flip_all_def)

lemma get_next_free_reg_Some:
  "get_next_free_reg env cs = Some col \<longleftrightarrow>
     col < length cs \<and> col < length (allocatable_regs env)
     \<and> allocatable_regs env ! col \<and> \<not> cs ! col
     \<and> (\<forall>c<col. \<not> (allocatable_regs env ! c \<and> \<not> cs ! c))"
  unfolding get_next_free_reg_def Let_def bitset_next_set_0_Some free_length
  by (auto simp: free_bit)

lemma get_next_free_reg_exists:
  assumes "r < length cs" "r < length (allocatable_regs env)" "allocatable_regs env ! r" "\<not> cs ! r"
  shows "\<exists>c\<le>r. get_next_free_reg env cs = Some c"
proof (cases "get_next_free_reg env cs")
  case None
  then have "\<forall>j<min (length cs) (length (allocatable_regs env)).
               \<not> bitset_and (bitset_flip_all cs) (allocatable_regs env) ! j"
    by (simp add: get_next_free_reg_def bitset_next_set_0_None free_length)
  with assms show ?thesis by (auto simp: free_bit)
next
  case (Some c)
  then have "\<forall>k<c. \<not> (allocatable_regs env ! k \<and> \<not> cs ! k)"
    by (simp add: get_next_free_reg_Some)
  with assms have "c \<le> r" by (meson not_le)
  with Some show ?thesis by blast
qed

text \<open>
  C3. A definition event of a value that is not live into the block and has no register
  yet gets the allocatable register of lowest index whose bit is not set in \<open>colors\<close> at
  that event, and the bit is set afterwards. A use event clears the bit of the value's
  register in \<open>colors\<close>; if that register is allocatable, the next free register is then
  that one or one below it, so it is available to a later definition.
\<close>

theorem assign_first_fit:
  "(\<not> be_is_live_in env block n \<and> registers st n = None
      \<and> assign_border env block st (True, n) = Inr st'
      \<longrightarrow> (\<exists>col. registers st' n = Some col
            \<and> col < length (colors st) \<and> col < length (allocatable_regs env)
            \<and> allocatable_regs env ! col \<and> \<not> colors st ! col
            \<and> (\<forall>c<col. \<not> (allocatable_regs env ! c \<and> \<not> colors st ! c))
            \<and> colors st' = (colors st)[col := True]
            \<and> live st' = insert n (live st)))
   \<and> (assign_border env block st (False, n) = Inr st'
      \<longrightarrow> (\<exists>r. registers st n = Some r \<and> r < length (colors st)
            \<and> colors st' = (colors st)[r := False]
            \<and> live st' = live st - {n}
            \<and> registers st' = registers st
            \<and> (r < length (allocatable_regs env) \<and> allocatable_regs env ! r
                 \<longrightarrow> (\<exists>c\<le>r. get_next_free_reg env (colors st') = Some c))))"
proof (intro conjI impI)
  assume a: "\<not> be_is_live_in env block n \<and> registers st n = None
      \<and> assign_border env block st (True, n) = Inr st'"
  then obtain col where g: "get_next_free_reg env (colors st) = Some col"
    by (auto simp: assign_border_def Let_def split: if_splits option.splits sum.splits)
  with a have l: "col < length (colors st)" and
    e: "st' = st\<lparr>registers := (registers st)(n \<mapsto> col), colors := (colors st)[col := True],
                 live := insert n (live st)\<rparr>"
    by (auto simp: assign_border_def Let_def bitset_set_def split: if_splits)
  from g[unfolded get_next_free_reg_Some] e
  show "\<exists>col. registers st' n = Some col
            \<and> col < length (colors st) \<and> col < length (allocatable_regs env)
            \<and> allocatable_regs env ! col \<and> \<not> colors st ! col
            \<and> (\<forall>c<col. \<not> (allocatable_regs env ! c \<and> \<not> colors st ! c))
            \<and> colors st' = (colors st)[col := True]
            \<and> live st' = insert n (live st)"
    by (intro exI[of _ col]) simp
next
  assume a: "assign_border env block st (False, n) = Inr st'"
  then obtain r where r: "registers st n = Some r" and l: "r < length (colors st)"
    and e: "st' = st\<lparr>colors := (colors st)[r := False], live := live st - {n}\<rparr>"
    by (auto simp: assign_border_def Let_def bitset_clear_def split: if_splits option.splits)
  have "r < length (allocatable_regs env) \<and> allocatable_regs env ! r
                 \<longrightarrow> (\<exists>c\<le>r. get_next_free_reg env (colors st') = Some c)"
  proof
    assume "r < length (allocatable_regs env) \<and> allocatable_regs env ! r"
    then show "\<exists>c\<le>r. get_next_free_reg env (colors st') = Some c"
      using l by (intro get_next_free_reg_exists) (simp_all add: e)
  qed
  with r l e show "\<exists>r. registers st n = Some r \<and> r < length (colors st)
            \<and> colors st' = (colors st)[r := False]
            \<and> live st' = live st - {n}
            \<and> registers st' = registers st
            \<and> (r < length (allocatable_regs env) \<and> allocatable_regs env ! r
                 \<longrightarrow> (\<exists>c\<le>r. get_next_free_reg env (colors st') = Some c))"
    by (intro exI[of _ r]) simp
qed

lemma ex_get_next_free_reg:
  "get_next_free_reg ex_chordal_env [False, False, False] = Some 0"
  "get_next_free_reg ex_chordal_env [True, False, False] = Some 1"
  "get_next_free_reg ex_chordal_env [False, True, False] = Some 0"
  by (simp_all add: get_next_free_reg_def ex_chordal_env_def bitset_and_def bitset_flip_all_def)

lemma ex_assign_steps:
  "assign_border ex_chordal_env 70 ex_assign_state (True, 61) = Inr ex_assign_state1"
  "assign_border ex_chordal_env 70 ex_assign_state1 (True, 62) = Inr ex_assign_state2"
  "assign_border ex_chordal_env 70 ex_assign_state2 (False, 61) = Inr ex_assign_state3"
  by (simp_all add: assign_border_def ex_assign_state_def ex_assign_state1_def
        ex_assign_state2_def ex_assign_state3_def ex_get_next_free_reg bitset_set_def
        bitset_clear_def bitset_is_set_def Let_def fun_upd_twist,
      simp_all add: ex_chordal_env_def insert_commute)

lemma ex_assign:
  "map_sum id (\<lambda>s. (registers s 61, registers s 62, colors s))
     (assign ex_chordal_env ex_assign_state 70) = Inr (Some 0, Some 1, [False, False, False])"
  by (simp add: assign_def assign_border_def ex_assign_state_def
        ex_get_next_free_reg bitset_set_def bitset_clear_all_def
        bitset_clear_def bitset_is_set_def Let_def,
      simp add: ex_chordal_env_def assign_border_def ex_get_next_free_reg[unfolded ex_chordal_env_def]
        bitset_set_def bitset_clear_def bitset_is_set_def Let_def
        get_next_free_reg_def bitset_and_def bitset_flip_all_def)

theorem assign_first_fit_witness:
  "\<not> be_is_live_in ex_chordal_env 70 61 \<and> registers ex_assign_state 61 = None
   \<and> assign_border ex_chordal_env 70 ex_assign_state (True, 61) = Inr ex_assign_state1
   \<and> (\<exists>col. registers ex_assign_state1 61 = Some col
         \<and> col < length (colors ex_assign_state) \<and> col < length (allocatable_regs ex_chordal_env)
         \<and> allocatable_regs ex_chordal_env ! col \<and> \<not> colors ex_assign_state ! col
         \<and> (\<forall>c<col. \<not> (allocatable_regs ex_chordal_env ! c \<and> \<not> colors ex_assign_state ! c))
         \<and> colors ex_assign_state1 = (colors ex_assign_state)[col := True])
   \<and> registers ex_assign_state1 61 = Some 0
   \<and> assign_border ex_chordal_env 70 ex_assign_state2 (False, 61) = Inr ex_assign_state3
   \<and> (\<exists>r. registers ex_assign_state2 61 = Some r
         \<and> colors ex_assign_state3 = (colors ex_assign_state2)[r := False]
         \<and> (\<exists>c\<le>r. get_next_free_reg ex_chordal_env (colors ex_assign_state3) = Some c))
   \<and> map_sum id (\<lambda>s. (registers s 61, registers s 62, colors s))
        (assign ex_chordal_env ex_assign_state 70) = Inr (Some 0, Some 1, [False, False, False])"
proof -
  have h: "\<not> be_is_live_in ex_chordal_env 70 61" "registers ex_assign_state 61 = None"
    by (simp_all add: ex_chordal_env_def ex_assign_state_def)
  have r0: "registers ex_assign_state1 61 = Some 0" by (simp add: ex_assign_state1_def)
  have al: "0 < length (allocatable_regs ex_chordal_env) \<and> allocatable_regs ex_chordal_env ! 0"
    by (simp add: ex_chordal_env_def)
  have r2: "registers ex_assign_state2 61 = Some 0" by (simp add: ex_assign_state2_def)
  note t1 = assign_first_fit[where env = ex_chordal_env and block = 70 and n = 61
      and st = ex_assign_state and st' = ex_assign_state1, THEN conjunct1]
  note t2 = assign_first_fit[where env = ex_chordal_env and block = 70 and n = 61
      and st = ex_assign_state2 and st' = ex_assign_state3, THEN conjunct2]
  from t1 h ex_assign_steps(1) have c1: "\<exists>col. registers ex_assign_state1 61 = Some col
         \<and> col < length (colors ex_assign_state) \<and> col < length (allocatable_regs ex_chordal_env)
         \<and> allocatable_regs ex_chordal_env ! col \<and> \<not> colors ex_assign_state ! col
         \<and> (\<forall>c<col. \<not> (allocatable_regs ex_chordal_env ! c \<and> \<not> colors ex_assign_state ! c))
         \<and> colors ex_assign_state1 = (colors ex_assign_state)[col := True]"
    by blast
  from t2 ex_assign_steps(3) obtain r where
    x: "registers ex_assign_state2 61 = Some r"
       "colors ex_assign_state3 = (colors ex_assign_state2)[r := False]"
       "r < length (allocatable_regs ex_chordal_env) \<and> allocatable_regs ex_chordal_env ! r
                 \<longrightarrow> (\<exists>c\<le>r. get_next_free_reg ex_chordal_env (colors ex_assign_state3) = Some c)"
    by blast
  from x(1) r2 have "r = 0" by simp
  with x al have c2: "\<exists>r. registers ex_assign_state2 61 = Some r
         \<and> colors ex_assign_state3 = (colors ex_assign_state2)[r := False]
         \<and> (\<exists>c\<le>r. get_next_free_reg ex_chordal_env (colors ex_assign_state3) = Some c)"
    by blast
  from h ex_assign_steps(1) c1 r0 ex_assign_steps(3) c2 ex_assign show ?thesis by blast
qed

subsection \<open>List scheduler\<close>

lemma ex_sched_graph_sel:
  "is_Phi ex_sched_graph n = (n = 21)" "is_Proj ex_sched_graph n = (n = 23)"
  "is_mode_T ex_sched_graph n = (n = 22)"
  "nodes_block ex_sched_graph n
     = (if 21 \<le> n \<and> n \<le> 25 then 20 else if n = 40 then 50 else 10)"
  "is_Block ex_sched_graph n = (n = 10 \<or> n = 20 \<or> n = 50)"
  "is_End ex_sched_graph n = False" "is_Anchor ex_sched_graph n = False"
  "is_Sync ex_sched_graph n = False" "be_is_Start ex_sched_graph n = False"
  "be_is_Keep ex_sched_graph n = False" "be_is_CopyKeep ex_sched_graph n = False"
  "mode_is_datab ex_sched_graph n = True"
  "ins_or_deps ex_sched_graph n = (if n = 21 then [30, 25] else if n = 22 then [21]
                         else if n = 23 then [22] else if n = 24 then [23, 31]
                         else if n = 25 then [24, 21] else if n = 40 then [25] else [])"
  "out_edges ex_sched_graph n = (if n = 20 then [25, 24, 23, 22, 21] else if n = 21 then [22, 25]
                       else if n = 22 then [23] else if n = 23 then [24]
                       else if n = 24 then [25] else if n = 25 then [21, 40]
                       else if n = 30 then [21] else if n = 31 then [24] else [])"
  "dep_out_edges ex_sched_graph n = []" "skip_Proj ex_sched_graph n = (if n = 23 then 22 else n)"
  "to_appear_in_schedule ex_sched_graph n = (\<not> (n = 10 \<or> n = 20 \<or> n = 50 \<or> n = 23))"
  by (simp_all add: ex_sched_graph_def)

lemma ex_phi_graph_sel:
  "is_Phi ex_phi_graph n = (n = 21)" "is_Proj ex_phi_graph n = False"
  "is_mode_T ex_phi_graph n = False"
  "nodes_block ex_phi_graph n = (if n = 21 \<or> n = 22 then 20 else if n = 40 then 50 else 10)"
  "is_Block ex_phi_graph n = (n = 10 \<or> n = 20 \<or> n = 50)"
  "is_End ex_phi_graph n = False" "is_Anchor ex_phi_graph n = False"
  "is_Sync ex_phi_graph n = False" "be_is_Start ex_phi_graph n = False"
  "be_is_Keep ex_phi_graph n = False" "be_is_CopyKeep ex_phi_graph n = False"
  "mode_is_datab ex_phi_graph n = True"
  "ins_or_deps ex_phi_graph n = (if n = 21 then [30, 22] else if n = 22 then [31, 32]
                         else if n = 40 then [21] else [])"
  "out_edges ex_phi_graph n = (if n = 20 then [22, 21] else if n = 21 then [40]
                       else if n = 22 then [21] else if n = 30 then [21] else if n = 31 then [22]
                       else if n = 32 then [22] else [])"
  "dep_out_edges ex_phi_graph n = []" "skip_Proj ex_phi_graph n = n"
  "to_appear_in_schedule ex_phi_graph n = (\<not> (n = 10 \<or> n = 20 \<or> n = 50))"
  by (simp_all add: ex_phi_graph_def)

lemmas ex_sched_eval =
  list_sched_block_def seed_node_def make_ready_def make_users_ready_def
  add_to_sched_body_def update_sched_liveness_def pick_node_def
  ir_nodeset_insert_def ir_nodeset_remove_def
  add_irn_not_sched_user_def set_irn_not_sched_user_def
  ex_selector_def ex_sched_env_def Let_def

lemma operands_ready_mono:
  "operands_ready g blk S n \<Longrightarrow> S \<subseteq> T \<Longrightarrow> operands_ready g blk T n"
  by (auto simp: operands_ready_def)

lemma schedule_index_le: "schedule_index sl u \<le> length sl"
  by (simp add: schedule_index_def length_takeWhile_le)

lemma schedule_index_append:
  assumes "schedule_index sl u < length sl"
  shows "schedule_index (sl @ xs) u = schedule_index sl u"
proof -
  have "\<exists>x \<in> set sl. \<not> x \<noteq> u"
  proof (rule ccontr)
    assume "\<not> (\<exists>x \<in> set sl. \<not> x \<noteq> u)"
    then have "\<forall>x \<in> set sl. x \<noteq> u" by blast
    then have "takeWhile (\<lambda>x. x \<noteq> u) sl = sl" by (simp only: takeWhile_eq_all_conv)
    with assms show False by (simp add: schedule_index_def)
  qed
  then have "takeWhile (\<lambda>x. x \<noteq> u) (sl @ xs) = takeWhile (\<lambda>x. x \<noteq> u) sl"
    by (auto intro: takeWhile_append1)
  then show ?thesis by (simp add: schedule_index_def)
qed

lemma schedule_index_snoc_self: "schedule_index (sl @ [nd]) nd \<le> length sl"
proof -
  have "takeWhile (\<lambda>x. x \<noteq> nd) (sl @ [nd]) \<noteq> sl @ [nd]"
    by (simp add: takeWhile_eq_all_conv)
  moreover have "length (takeWhile (\<lambda>x. x \<noteq> nd) (sl @ [nd])) \<le> length (sl @ [nd])"
    by (rule length_takeWhile_le)
  moreover have "length (takeWhile (\<lambda>x. x \<noteq> nd) (sl @ [nd])) = length (sl @ [nd])
      \<Longrightarrow> takeWhile (\<lambda>x. x \<noteq> nd) (sl @ [nd]) = sl @ [nd]"
    by (metis takeWhile_eq_take take_all order_refl)
  ultimately have "length (takeWhile (\<lambda>x. x \<noteq> nd) (sl @ [nd])) < length (sl @ [nd])"
    by (cases "length (takeWhile (\<lambda>x. x \<noteq> nd) (sl @ [nd])) = length (sl @ [nd])") auto
  then show ?thesis by (simp add: schedule_index_def)
qed

lemma scheduled_before_mono:
  assumes "scheduled_before g blk sl i u" and "i \<le> length sl" and "i \<le> j"
  shows "scheduled_before g blk (sl @ xs) j u"
  using assms(1)
proof (induction rule: scheduled_before.induct)
  case (in_schedule u)
  from in_schedule(2) assms(2) have "schedule_index sl u < length sl" by simp
  then have "schedule_index (sl @ xs) u = schedule_index sl u" by (rule schedule_index_append)
  with in_schedule assms(3) show ?case by (auto intro: scheduled_before.in_schedule)
next
  case (hidden_Phi u)
  then show ?case by (rule scheduled_before.hidden_Phi)
next
  case (hidden u)
  then show ?case by (auto intro: scheduled_before.hidden)
qed

lemma respects_dag_snoc:
  assumes "respects_dag g blk sl"
    and "\<not> is_Phi g nd \<longrightarrow>
           (\<forall>u \<in> set (ins_or_deps g nd).
              \<not> is_Block g u \<and> nodes_block g u = blk
                \<longrightarrow> scheduled_before g blk sl (length sl) u)"
  shows "respects_dag g blk (sl @ [nd])"
  unfolding respects_dag_def
proof (intro allI impI ballI)
  fix i u
  assume i: "i < length (sl @ [nd])"
    and np: "\<not> is_Phi g ((sl @ [nd]) ! i)"
    and u: "u \<in> set (ins_or_deps g ((sl @ [nd]) ! i))"
    and c: "\<not> is_Block g u \<and> nodes_block g u = blk"
  show "scheduled_before g blk (sl @ [nd]) i u"
  proof (cases "i < length sl")
    case True
    then have e: "(sl @ [nd]) ! i = sl ! i" by (simp add: nth_append)
    from assms(1) True np u c have "scheduled_before g blk sl i u"
      by (simp add: respects_dag_def e)
    then show ?thesis by (rule scheduled_before_mono) (use True in simp_all)
  next
    case False
    with i have l: "i = length sl" by simp
    then have e: "(sl @ [nd]) ! i = nd" by simp
    from assms(2) np u c have "scheduled_before g blk sl (length sl) u" by (simp add: e)
    then show ?thesis unfolding l by (rule scheduled_before_mono) simp_all
  qed
qed

lemma add_irn_not_sched_user_keeps:
  "already_sched (fst (add_irn_not_sched_user env n num)) = already_sched env
   \<and> cands (fst (add_irn_not_sched_user env n num)) = cands env
   \<and> sched_list (fst (add_irn_not_sched_user env n num)) = sched_list env
   \<and> sched_block (fst (add_irn_not_sched_user env n num)) = sched_block env"
  by (simp add: add_irn_not_sched_user_def Let_def)

lemma update_inputs_keeps:
  "already_sched (update_inputs g ins env) = already_sched env
   \<and> cands (update_inputs g ins env) = cands env
   \<and> sched_list (update_inputs g ins env) = sched_list env
   \<and> sched_block (update_inputs g ins env) = sched_block env"
proof (induction ins arbitrary: env)
  case Nil
  then show ?case by simp
next
  case (Cons inp ins)
  show ?case
    using Cons.IH add_irn_not_sched_user_keeps[of env "skip_Proj g inp" "- 1"]
    by (simp add: Let_def)
qed

lemma update_sched_liveness_keeps:
  assumes "update_sched_liveness depth g env nd = Inr env'"
  shows "already_sched env' = already_sched env \<and> cands env' = cands env
     \<and> sched_list env' = sched_list env \<and> sched_block env' = sched_block env"
proof (cases "is_Proj g nd")
  case True
  with assms show ?thesis by (simp add: update_sched_liveness_def)
next
  case False
  note k = update_inputs_keeps[of g "rev (ins_or_deps g nd)" env]
  define env1 where "env1 = update_inputs g (rev (ins_or_deps g nd)) env"
  from False assms obtain i where i: "get_num_successors depth g nd = Some i"
    by (cases "get_num_successors depth g nd") (simp_all add: update_sched_liveness_def Let_def)
  show ?thesis
  proof (cases "i > 0")
    case True
    with False i assms
    have "env' = (set_irn_not_sched_user env1 nd (int i))
            \<lparr>sched_live := ir_nodeset_insert (sched_live (set_irn_not_sched_user env1 nd (int i))) nd\<rparr>"
      by (simp add: update_sched_liveness_def Let_def env1_def)
    with k show ?thesis by (simp add: set_irn_not_sched_user_def env1_def)
  next
    case F: False
    with False i assms have "env' = env1"
      by (simp add: update_sched_liveness_def Let_def env1_def)
    with k show ?thesis by (simp add: env1_def)
  qed
qed

lemma operands_scheduled_True:
  "operands_scheduled g env nd ops = Inr True \<Longrightarrow>
     \<forall>u \<in> set ops. \<not> is_Block g u \<and> nodes_block g u = sched_block env \<longrightarrow> u \<in> already_sched env"
  by (induction ops) (auto split: if_splits)

lemma sched_inv_cands_insert:
  assumes "sched_inv g blk env" and "operands_ready g blk (already_sched env) nd"
  shows "sched_inv g blk (env\<lparr>cands := ir_nodeset_insert (cands env) nd\<rparr>)"
  using assms by (auto simp: sched_inv_def ir_nodeset_insert_def)

lemma sched_inv_selector:
  "sched_inv g blk (env\<lparr>selector_block_env := b\<rparr>) = sched_inv g blk env"
  by (simp add: sched_inv_def)

lemma sched_inv_live:
  "sched_inv g blk (env\<lparr>sched_live := l\<rparr>) = sched_inv g blk env"
  by (simp add: sched_inv_def)

lemma sched_inv_cands_remove:
  "sched_inv g blk env \<Longrightarrow> sched_inv g blk (env\<lparr>cands := ir_nodeset_remove (cands env) nd\<rparr>)"
  by (auto simp: sched_inv_def ir_nodeset_remove_def)

lemma make_ready_skip:
  "is_Block g nd \<or> length (out_edges g nd) = 0 \<or> sched_block env \<noteq> nodes_block g nd \<Longrightarrow>
     make_ready rec g sel env pred nd = Inr (env, False)"
  by (auto simp: make_ready_def)

lemma make_ready_go:
  "\<not> (is_Block g nd \<or> length (out_edges g nd) = 0 \<or> sched_block env \<noteq> nodes_block g nd) \<Longrightarrow>
     make_ready rec g sel env pred nd =
       (case operands_scheduled g env nd (ins_or_deps g nd) of
              Inl e \<Rightarrow> Inl e
            | Inr False \<Rightarrow> Inr (env, False)
            | Inr True \<Rightarrow>
                if \<not> to_appear_in_schedule g nd then
                  (case rec env nd of Inl e \<Rightarrow> Inl e | Inr env1 \<Rightarrow> Inr (env1, True))
                else
                  (let env1 = env\<lparr>cands := ir_nodeset_insert (cands env) nd\<rparr>;
                       env2 = (case node_ready sel of
                                 None \<Rightarrow> env1
                               | Some f \<Rightarrow> env1\<lparr>selector_block_env :=
                                            f (selector_block_env env1) nd pred\<rparr>)
                   in Inr (env2, True)))"
  by (simp add: make_ready_def)

lemma make_ready_inv:
  assumes rec: "\<And>e n e'. sched_inv g blk e \<Longrightarrow> operands_ready g blk (already_sched e) n
                  \<Longrightarrow> rec e n = Inr e'
                  \<Longrightarrow> sched_inv g blk e' \<and> already_sched e \<subseteq> already_sched e'"
    and inv: "sched_inv g blk env"
    and r: "make_ready rec g sel env pred nd = Inr (env', b)"
  shows "sched_inv g blk env' \<and> already_sched env \<subseteq> already_sched env'
         \<and> (b \<longrightarrow> operands_ready g blk (already_sched env) nd)"
proof (cases "is_Block g nd \<or> length (out_edges g nd) = 0 \<or> sched_block env \<noteq> nodes_block g nd")
  case True
  from r[unfolded make_ready_skip[OF True]] inv show ?thesis by simp
next
  case False
  note r = r[unfolded make_ready_go[OF False]]
  from inv have sb: "sched_block env = blk" by (simp add: sched_inv_def)
  show ?thesis
  proof (cases "operands_scheduled g env nd (ins_or_deps g nd)")
    case (Inl e)
    with r show ?thesis by simp
  next
    case (Inr ok)
    show ?thesis
    proof (cases ok)
      case no: False
      with Inr r inv show ?thesis by simp
    next
      case yes: True
      from Inr yes have "operands_scheduled g env nd (ins_or_deps g nd) = Inr True" by simp
      from operands_scheduled_True[OF this] sb
      have rdy: "operands_ready g blk (already_sched env) nd" by (simp add: operands_ready_def)
      show ?thesis
      proof (cases "to_appear_in_schedule g nd")
        case na: False
        with Inr yes r obtain env1 where e1: "rec env nd = Inr env1" and e: "env' = env1" "b"
          by (auto split: sum.splits)
        from rec[OF inv rdy e1] e rdy show ?thesis by simp
      next
        case ap: True
        define env1 where "env1 = env\<lparr>cands := ir_nodeset_insert (cands env) nd\<rparr>"
        have i1: "sched_inv g blk env1" unfolding env1_def
          by (rule sched_inv_cands_insert[OF inv rdy])
        from Inr yes ap r have e: "b"
          "env' = (case node_ready sel of None \<Rightarrow> env1
                   | Some f \<Rightarrow> env1\<lparr>selector_block_env := f (selector_block_env env1) nd pred\<rparr>)"
          by (auto simp: Let_def env1_def split: option.splits)
        have "sched_inv g blk env' \<and> already_sched env' = already_sched env"
        proof (cases "node_ready sel")
          case None
          with e(2) i1 show ?thesis by (simp add: env1_def)
        next
          case (Some f)
          with e(2) have "env' = env1\<lparr>selector_block_env := f (selector_block_env env1) nd pred\<rparr>"
            by simp
          moreover have "already_sched env1 = already_sched env" by (simp add: env1_def)
          ultimately show ?thesis using i1 by (simp add: sched_inv_selector)
        qed
        with rdy e(1) show ?thesis by simp
      qed
    qed
  qed
qed

lemma make_users_ready_loop_inv:
  assumes rec: "\<And>e n e'. sched_inv g blk e \<Longrightarrow> operands_ready g blk (already_sched e) n
                  \<Longrightarrow> rec e n = Inr e'
                  \<Longrightarrow> sched_inv g blk e' \<and> already_sched e \<subseteq> already_sched e'"
  shows "sched_inv g blk env \<Longrightarrow> make_users_ready_loop rec g sel nd users env = Inr env'
           \<Longrightarrow> sched_inv g blk env' \<and> already_sched env \<subseteq> already_sched env'"
proof (induction users arbitrary: env)
  case Nil
  then show ?case by simp
next
  case (Cons user rest)
  show ?case
  proof (cases "is_Phi g user")
    case True
    with Cons.prems(2) have "make_users_ready_loop rec g sel nd rest env = Inr env'" by simp
    from Cons.IH[OF Cons.prems(1) this] show ?thesis .
  next
    case False
    with Cons.prems(2) obtain env1 b where
      m: "make_ready rec g sel env nd user = Inr (env1, b)" and
      l: "make_users_ready_loop rec g sel nd rest env1 = Inr env'"
      by (auto split: sum.splits prod.splits)
    have 1: "sched_inv g blk env1 \<and> already_sched env \<subseteq> already_sched env1
         \<and> (b \<longrightarrow> operands_ready g blk (already_sched env) user)"
      by (rule make_ready_inv[OF _ Cons.prems(1) m]) (rule rec)
    then have i1: "sched_inv g blk env1" by simp
    from Cons.IH[OF i1 l] 1 show ?thesis by blast
  qed
qed

lemma make_users_ready_inv:
  assumes rec: "\<And>e n e'. sched_inv g blk e \<Longrightarrow> operands_ready g blk (already_sched e) n
                  \<Longrightarrow> rec e n = Inr e'
                  \<Longrightarrow> sched_inv g blk e' \<and> already_sched e \<subseteq> already_sched e'"
    and inv: "sched_inv g blk env"
    and r: "make_users_ready rec g sel env nd = Inr env'"
  shows "sched_inv g blk env' \<and> already_sched env \<subseteq> already_sched env'"
proof -
  from r obtain env1 where
    a: "make_users_ready_loop rec g sel nd (out_edges g nd) env = Inr env1" and
    b: "make_users_ready_loop rec g sel nd (dep_out_edges g nd) env1 = Inr env'"
    by (auto simp: make_users_ready_def split: sum.splits)
  have 1: "sched_inv g blk env1 \<and> already_sched env \<subseteq> already_sched env1"
    by (rule make_users_ready_loop_inv[OF _ inv a]) (rule rec)
  then have i1: "sched_inv g blk env1" by simp
  have "sched_inv g blk env' \<and> already_sched env1 \<subseteq> already_sched env'"
    by (rule make_users_ready_loop_inv[OF _ i1 b]) (rule rec)
  with 1 show ?thesis by blast
qed

lemma sched_inv_operands:
  assumes inv: "sched_inv g blk env"
    and pre: "\<not> is_Phi g nd \<longrightarrow> operands_ready g blk (already_sched env) nd"
  shows "\<not> is_Phi g nd \<longrightarrow>
           (\<forall>u \<in> set (ins_or_deps g nd).
              \<not> is_Block g u \<and> nodes_block g u = blk
                \<longrightarrow> scheduled_before g blk (sched_list env) (length (sched_list env)) u)"
proof (intro impI ballI)
  fix u
  assume np: "\<not> is_Phi g nd" and u: "u \<in> set (ins_or_deps g nd)"
    and c: "\<not> is_Block g u \<and> nodes_block g u = blk"
  from pre np u c have "u \<in> already_sched env" by (simp add: operands_ready_def)
  with inv c show "scheduled_before g blk (sched_list env) (length (sched_list env)) u"
    by (simp add: sched_inv_def)
qed

lemma sched_inv_scheduled:
  assumes inv: "sched_inv g blk env"
    and ap: "to_appear_in_schedule g nd"
    and pre: "\<not> is_Phi g nd \<longrightarrow> operands_ready g blk (already_sched env) nd"
    and f: "sched_block e' = sched_block env" "cands e' = ir_nodeset_remove (cands env) nd"
      "already_sched e' = insert nd (already_sched env)" "sched_list e' = sched_list env @ [nd]"
  shows "sched_inv g blk e'"
proof -
  from inv have sb: "sched_block env = blk"
    and cr: "\<forall>n \<in> set (cands env). operands_ready g blk (already_sched env) n"
    and rd: "respects_dag g blk (sched_list env)"
    and al: "\<forall>u \<in> already_sched env. nodes_block g u = blk
               \<longrightarrow> scheduled_before g blk (sched_list env) (length (sched_list env)) u"
    by (simp_all add: sched_inv_def)
  have 1: "sched_block e' = blk" using f(1) sb by simp
  have 2: "\<forall>n \<in> set (cands e'). operands_ready g blk (already_sched e') n"
  proof
    fix n assume "n \<in> set (cands e')"
    then have "n \<in> set (cands env)" by (simp add: f(2) ir_nodeset_remove_def)
    with cr have "operands_ready g blk (already_sched env) n" by blast
    then show "operands_ready g blk (already_sched e') n"
      by (rule operands_ready_mono) (auto simp: f(3))
  qed
  have 3: "respects_dag g blk (sched_list e')" unfolding f(4)
    by (rule respects_dag_snoc[OF rd sched_inv_operands[OF inv pre]])
  have 4: "\<forall>u \<in> already_sched e'. nodes_block g u = blk
               \<longrightarrow> scheduled_before g blk (sched_list e') (length (sched_list e')) u"
  proof (intro ballI impI)
    fix u assume u: "u \<in> already_sched e'" and b: "nodes_block g u = blk"
    show "scheduled_before g blk (sched_list e') (length (sched_list e')) u"
    proof (cases "u = nd")
      case True
      have "schedule_index (sched_list env @ [nd]) nd < length (sched_list env @ [nd])"
        using schedule_index_snoc_self[of "sched_list env" nd] by simp
      with ap True show ?thesis unfolding f(4) by (auto intro: scheduled_before.in_schedule)
    next
      case False
      with u f(3) have "u \<in> already_sched env" by simp
      with al b have "scheduled_before g blk (sched_list env) (length (sched_list env)) u"
        by blast
      then show ?thesis unfolding f(4) by (rule scheduled_before_mono) simp_all
    qed
  qed
  from 1 2 3 4 show ?thesis by (simp add: sched_inv_def)
qed

lemma sched_inv_marked:
  assumes inv: "sched_inv g blk env"
    and na: "\<not> to_appear_in_schedule g nd"
    and pre: "\<not> is_Phi g nd \<longrightarrow> operands_ready g blk (already_sched env) nd"
    and f: "sched_block e' = sched_block env" "cands e' = cands env"
      "already_sched e' = insert nd (already_sched env)" "sched_list e' = sched_list env"
  shows "sched_inv g blk e'"
proof -
  from inv have sb: "sched_block env = blk"
    and cr: "\<forall>n \<in> set (cands env). operands_ready g blk (already_sched env) n"
    and rd: "respects_dag g blk (sched_list env)"
    and al: "\<forall>u \<in> already_sched env. nodes_block g u = blk
               \<longrightarrow> scheduled_before g blk (sched_list env) (length (sched_list env)) u"
    by (simp_all add: sched_inv_def)
  have 2: "\<forall>n \<in> set (cands e'). operands_ready g blk (already_sched e') n"
  proof
    fix n assume "n \<in> set (cands e')"
    with cr f(2) have "operands_ready g blk (already_sched env) n" by simp
    then show "operands_ready g blk (already_sched e') n"
      by (rule operands_ready_mono) (auto simp: f(3))
  qed
  have nd: "scheduled_before g blk (sched_list env) (length (sched_list env)) nd"
  proof (cases "is_Phi g nd")
    case True
    with na show ?thesis by (rule scheduled_before.hidden_Phi)
  next
    case False
    from sched_inv_operands[OF inv pre] False
    show ?thesis by (intro scheduled_before.hidden na) simp_all
  qed
  have 4: "\<forall>u \<in> already_sched e'. nodes_block g u = blk
               \<longrightarrow> scheduled_before g blk (sched_list e') (length (sched_list e')) u"
    using al nd by (auto simp: f(3) f(4))
  from sb f(1) 2 rd f(4) 4 show ?thesis by (simp add: sched_inv_def)
qed

lemma add_to_sched_body_inv:
  assumes rec: "\<And>e n e'. sched_inv g blk e \<Longrightarrow> operands_ready g blk (already_sched e) n
                  \<Longrightarrow> rec e n = Inr e'
                  \<Longrightarrow> sched_inv g blk e' \<and> already_sched e \<subseteq> already_sched e'"
    and inv: "sched_inv g blk env"
    and pre: "\<not> is_Phi g nd \<longrightarrow> operands_ready g blk (already_sched env) nd"
    and r: "add_to_sched_body depth rec g sel env nd = Inr env'"
  shows "sched_inv g blk env' \<and> already_sched env \<subseteq> already_sched env'"
proof -
  define env2 where "env2 = (if to_appear_in_schedule g nd then
              (case update_sched_liveness depth g env nd of
                 Inl e \<Rightarrow> Inl e
               | Inr env1 \<Rightarrow> Inr (env1\<lparr>sched_list := sched_list env1 @ [nd],
                                     cands := ir_nodeset_remove (cands env1) nd\<rparr>))
            else Inr env)"
  from r obtain e2 where e2: "env2 = Inr e2"
    by (cases env2) (simp_all add: add_to_sched_body_def env2_def[symmetric])
  define e4 where "e4 = (case node_selected sel of
                         None \<Rightarrow> e2
                       | Some f \<Rightarrow> e2\<lparr>selector_block_env := f (selector_block_env e2) nd\<rparr>)
                      \<lparr>already_sched := insert nd (already_sched
                         (case node_selected sel of
                         None \<Rightarrow> e2
                       | Some f \<Rightarrow> e2\<lparr>selector_block_env := f (selector_block_env e2) nd\<rparr>))\<rparr>"
  from r e2 have m: "make_users_ready rec g sel e4 nd = Inr env'"
    by (simp add: add_to_sched_body_def env2_def[symmetric] Let_def e4_def)
  have f4: "sched_block e4 = sched_block e2" "cands e4 = cands e2"
    "already_sched e4 = insert nd (already_sched e2)" "sched_list e4 = sched_list e2"
    by (simp_all add: e4_def split: option.splits)
  have i4: "sched_inv g blk e4 \<and> already_sched env \<subseteq> already_sched e4"
  proof (cases "to_appear_in_schedule g nd")
    case True
    with e2 obtain env1 where u: "update_sched_liveness depth g env nd = Inr env1"
      and e: "e2 = env1\<lparr>sched_list := sched_list env1 @ [nd],
                        cands := ir_nodeset_remove (cands env1) nd\<rparr>"
      by (auto simp: env2_def split: sum.splits)
    note k = update_sched_liveness_keeps[OF u]
    have "sched_inv g blk e4"
      by (rule sched_inv_scheduled[OF inv True pre]) (simp_all add: f4 e k)
    moreover have "already_sched env \<subseteq> already_sched e4" by (auto simp: f4 e k)
    ultimately show ?thesis by simp
  next
    case False
    with e2 have e: "e2 = env" by (simp add: env2_def)
    have "sched_inv g blk e4"
      by (rule sched_inv_marked[OF inv False pre]) (simp_all add: f4 e)
    moreover have "already_sched env \<subseteq> already_sched e4" by (auto simp: f4 e)
    ultimately show ?thesis by simp
  qed
  then have i: "sched_inv g blk e4" by simp
  have "sched_inv g blk env' \<and> already_sched e4 \<subseteq> already_sched env'"
    by (rule make_users_ready_inv[OF _ i m]) (rule rec)
  with i4 show ?thesis by blast
qed

lemma add_to_sched_inv:
  "sched_inv g blk env \<Longrightarrow>
   \<not> is_Phi g nd \<longrightarrow> operands_ready g blk (already_sched env) nd \<Longrightarrow>
   add_to_sched fuel g sel env nd = Inr env' \<Longrightarrow>
   sched_inv g blk env' \<and> already_sched env \<subseteq> already_sched env'"
proof (induction fuel arbitrary: env nd env')
  case 0
  then show ?case by simp
next
  case (Suc fuel)
  from Suc.prems(3)
  have r: "add_to_sched_body (Suc fuel) (add_to_sched fuel g sel) g sel env nd = Inr env'"
    by simp
  show ?case
  proof (rule add_to_sched_body_inv[OF _ Suc.prems(1) Suc.prems(2) r])
    fix e n e'
    assume "sched_inv g blk e" "operands_ready g blk (already_sched e) n"
      "add_to_sched fuel g sel e n = Inr e'"
    then show "sched_inv g blk e' \<and> already_sched e \<subseteq> already_sched e'"
      using Suc.IH[of e n e'] by simp
  qed
qed

lemma seed_node_inv:
  assumes inv: "sched_inv g blk env"
    and st: "be_is_Start g nd \<longrightarrow> operands_ready g blk {} nd"
    and r: "seed_node fuel g sel env nd = Inr env'"
  shows "sched_inv g blk env'"
proof -
  have rec: "\<And>e n e'. sched_inv g blk e \<Longrightarrow> operands_ready g blk (already_sched e) n
      \<Longrightarrow> add_to_sched fuel g sel e n = Inr e'
      \<Longrightarrow> sched_inv g blk e' \<and> already_sched e \<subseteq> already_sched e'"
    by (rule add_to_sched_inv) simp_all
  consider (skip) "env' = env"
    | (add) "is_Phi g nd \<or> be_is_Start g nd" "add_to_sched fuel g sel env nd = Inr env'"
    | (blocked) l where "env' = env\<lparr>sched_live := l\<rparr>"
    | (ready) l b where
        "make_ready (add_to_sched fuel g sel) g sel (env\<lparr>sched_live := l\<rparr>) 0 nd = Inr (env', b)"
    using r by (auto simp: seed_node_def Let_def split: if_splits sum.splits prod.splits)
  then show ?thesis
  proof cases
    case skip
    with inv show ?thesis by simp
  next
    case add
    have "\<not> is_Phi g nd \<longrightarrow> operands_ready g blk (already_sched env) nd"
    proof
      assume "\<not> is_Phi g nd"
      with add(1) st have "operands_ready g blk {} nd" by simp
      then show "operands_ready g blk (already_sched env) nd"
        by (rule operands_ready_mono) simp
    qed
    from add_to_sched_inv[OF inv this add(2)] show ?thesis by simp
  next
    case blocked
    with inv show ?thesis by (simp add: sched_inv_live)
  next
    case ready
    from inv have i: "sched_inv g blk (env\<lparr>sched_live := l\<rparr>)" by (simp add: sched_inv_live)
    have "sched_inv g blk env'
        \<and> already_sched (env\<lparr>sched_live := l\<rparr>) \<subseteq> already_sched env'
        \<and> (b \<longrightarrow> operands_ready g blk (already_sched (env\<lparr>sched_live := l\<rparr>)) nd)"
      by (rule make_ready_inv[OF _ i ready]) (rule rec)
    then show ?thesis by simp
  qed
qed

lemma seed_nodes_inv:
  "sched_inv g blk env \<Longrightarrow> \<forall>n \<in> set nds. be_is_Start g n \<longrightarrow> operands_ready g blk {} n \<Longrightarrow>
   seed_nodes fuel g sel nds env = Inr env' \<Longrightarrow> sched_inv g blk env'"
proof (induction nds arbitrary: env)
  case Nil
  then show ?case by simp
next
  case (Cons nd nds)
  from Cons.prems(3) obtain env1 where a: "seed_node fuel g sel env nd = Inr env1"
    and b: "seed_nodes fuel g sel nds env1 = Inr env'"
    by (auto split: sum.splits)
  from Cons.prems(2) have s: "be_is_Start g nd \<longrightarrow> operands_ready g blk {} nd"
    and ss: "\<forall>n \<in> set nds. be_is_Start g n \<longrightarrow> operands_ready g blk {} n" by simp_all
  from Cons.IH[OF seed_node_inv[OF Cons.prems(1) s a] ss b] show ?case .
qed

lemma pick_node_cases:
  assumes "selects_candidate sel" and "cands env \<noteq> []"
  shows "fst (pick_node g sel env) \<in> set (cands env)
       \<and> (snd (pick_node g sel env) = env
          \<or> (\<exists>b. snd (pick_node g sel env) = env\<lparr>selector_block_env := b\<rparr>))"
proof (cases "find (\<lambda>n. be_is_Keep g n \<or> be_is_CopyKeep g n \<or> is_Sync g n) (cands env)")
  case None
  with assms have "fst (pick_node g sel env) \<in> set (cands env)"
    by (simp add: pick_node_def Let_def selects_candidate_def)
  moreover from None have "snd (pick_node g sel env)
      = env\<lparr>selector_block_env :=
              snd (select sel (selector_block_env env) (cands env) (sched_live env))\<rparr>"
    by (simp add: pick_node_def Let_def)
  ultimately show ?thesis by blast
next
  case (Some n)
  then have "n \<in> set (cands env)" by (auto simp: find_Some_iff)
  with Some show ?thesis by (simp add: pick_node_def)
qed

lemma sched_loop_inv:
  assumes sc: "selects_candidate sel"
  shows "sched_inv g blk env \<Longrightarrow> sched_loop iters fuel g sel env = Inr env'
           \<Longrightarrow> sched_inv g blk env'"
proof (induction iters arbitrary: env)
  case 0
  then show ?case by (simp split: if_splits)
next
  case (Suc iters)
  show ?case
  proof (cases "cands env = []")
    case True
    with Suc.prems show ?thesis by simp
  next
    case False
    define p where "p = pick_node g sel env"
    from False Suc.prems(2) obtain env1 where
      a: "add_to_sched fuel g sel (snd p) (fst p) = Inr env1" and
      l: "sched_loop iters fuel g sel (env1\<lparr>cands := ir_nodeset_remove (cands env1) (fst p)\<rparr>)
            = Inr env'"
      by (auto simp: Let_def p_def split: sum.splits)
    from pick_node_cases[OF sc False, of g, folded p_def]
    have m: "fst p \<in> set (cands env)"
      and e: "snd p = env \<or> (\<exists>b. snd p = env\<lparr>selector_block_env := b\<rparr>)" by simp_all
    from e Suc.prems(1) have ip: "sched_inv g blk (snd p)"
      by (auto simp: sched_inv_selector)
    from e have "cands (snd p) = cands env" "already_sched (snd p) = already_sched env" by auto
    with m Suc.prems(1) have rdy: "operands_ready g blk (already_sched (snd p)) (fst p)"
      by (simp add: sched_inv_def)
    from add_to_sched_inv[OF ip _ a] rdy have "sched_inv g blk env1" by blast
    then have "sched_inv g blk (env1\<lparr>cands := ir_nodeset_remove (cands env1) (fst p)\<rparr>)"
      by (rule sched_inv_cands_remove)
    from Suc.IH[OF this l] show ?thesis .
  qed
qed

lemma list_sched_block_inv:
  assumes sc: "selects_candidate sel"
    and fresh: "\<forall>u \<in> already_sched env0. nodes_block g u \<noteq> blk"
    and st: "start_has_no_operand g blk"
    and r: "list_sched_block iters fuel g sel env0 blk = Inr env'"
  shows "sched_inv g blk env'"
proof -
  define be where "be = env0\<lparr>sched_list := [], cands := [], sched_live := [], sched_block := blk,
                    selector_block_env := (case init_block sel of
                                             None \<Rightarrow> selector_block_env env0
                                           | Some f \<Rightarrow> f blk)\<rparr>"
  from r obtain env1 env2 where
    a: "seed_nodes fuel g sel (out_edges g blk) be = Inr env1" and
    b: "sched_loop iters fuel g sel env1 = Inr env2" and
    c: "env' = (case finish_block sel of
                  None \<Rightarrow> env2
                | Some f \<Rightarrow> env2\<lparr>selector_block_env := f (selector_block_env env2)\<rparr>)"
    by (auto simp: list_sched_block_def be_def[symmetric] Let_def split: sum.splits)
  have i: "sched_inv g blk be"
    using fresh by (simp add: sched_inv_def be_def respects_dag_def)
  from st have s: "\<forall>n \<in> set (out_edges g blk). be_is_Start g n \<longrightarrow> operands_ready g blk {} n"
    by (simp add: start_has_no_operand_def)
  from sched_loop_inv[OF sc seed_nodes_inv[OF i s a] b] have "sched_inv g blk env2" .
  with c show ?thesis by (simp add: sched_inv_selector split: option.splits)
qed

lemma make_ready_True:
  assumes r: "make_ready rec g sel env pred nd = Inr (env1, True)"
  shows "operands_ready g (sched_block env) (already_sched env) nd"
proof (cases "is_Block g nd \<or> length (out_edges g nd) = 0 \<or> sched_block env \<noteq> nodes_block g nd")
  case True
  from r[unfolded make_ready_skip[OF True]] show ?thesis by simp
next
  case False
  note r = r[unfolded make_ready_go[OF False]]
  have "operands_scheduled g env nd (ins_or_deps g nd) = Inr True"
  proof (cases "operands_scheduled g env nd (ins_or_deps g nd)")
    case (Inl e)
    with r show ?thesis by simp
  next
    case (Inr ok)
    with r show ?thesis by (cases ok) simp_all
  qed
  from operands_scheduled_True[OF this] show ?thesis by (simp add: operands_ready_def)
qed

lemma sum_options_mono:
  "(\<And>x k. x \<in> set xs \<Longrightarrow> f x = Some k \<Longrightarrow> f' x = Some k) \<Longrightarrow>
   sum_options (map f xs) = Some s \<Longrightarrow> sum_options (map f' xs) = Some s"
proof (induction xs arbitrary: s)
  case Nil
  then show ?case by simp
next
  case (Cons x xs)
  from Cons.prems(2) obtain a t where a: "f x = Some a" and t: "sum_options (map f xs) = Some t"
    and s: "s = a + t"
    by (cases "f x") auto
  from Cons.prems(1)[OF _ a] have a': "f' x = Some a" by simp
  have "sum_options (map f' xs) = Some t"
    by (rule Cons.IH[OF _ t]) (rule Cons.prems(1), simp_all)
  with a' s show ?case by simp
qed

lemma get_num_successors_mono:
  "get_num_successors d g nd = Some k \<Longrightarrow> d \<le> d' \<Longrightarrow> get_num_successors d' g nd = Some k"
proof (induction d arbitrary: nd k d')
  case 0
  then show ?case by simp
next
  case (Suc d)
  from Suc.prems(2) obtain e where d': "d' = Suc e" and le: "d \<le> e" by (cases d') auto
  show ?case
  proof (cases "is_mode_T g nd")
    case False
    with Suc.prems(1) show ?thesis by (simp add: d')
  next
    case True
    with Suc.prems(1) have
      "sum_options (map (\<lambda>proj. if is_mode_T g proj then get_num_successors d g proj
                                  else if mode_is_datab g proj then Some (length (out_edges g proj))
                                  else Some 0) (out_edges g nd)) = Some k" by simp
    then have
      "sum_options (map (\<lambda>proj. if is_mode_T g proj then get_num_successors e g proj
                                  else if mode_is_datab g proj then Some (length (out_edges g proj))
                                  else Some 0) (out_edges g nd)) = Some k"
      by (rule sum_options_mono[rotated]) (auto split: if_splits intro: Suc.IH[OF _ le])
    with True show ?thesis by (simp add: d')
  qed
qed

lemma update_sched_liveness_mono:
  assumes "update_sched_liveness d g env nd = Inr env'" and "d \<le> d'"
  shows "update_sched_liveness d' g env nd = Inr env'"
proof (cases "is_Proj g nd")
  case True
  with assms show ?thesis by (simp add: update_sched_liveness_def)
next
  case False
  with assms(1) obtain i where i: "get_num_successors d g nd = Some i"
    by (cases "get_num_successors d g nd") (simp_all add: update_sched_liveness_def Let_def)
  from get_num_successors_mono[OF i assms(2)] i assms(1) False show ?thesis
    by (simp add: update_sched_liveness_def Let_def)
qed

lemma make_ready_mono:
  assumes ext: "\<And>e n e'. rec e n = Inr e' \<Longrightarrow> rec' e n = Inr e'"
    and r: "make_ready rec g sel env pred nd = Inr res"
  shows "make_ready rec' g sel env pred nd = Inr res"
proof (cases "is_Block g nd \<or> length (out_edges g nd) = 0 \<or> sched_block env \<noteq> nodes_block g nd")
  case True
  from r show ?thesis by (simp add: make_ready_skip[OF True])
next
  case False
  note r = r[unfolded make_ready_go[OF False]]
  show ?thesis
  proof (cases "operands_scheduled g env nd (ins_or_deps g nd) = Inr True
                  \<and> \<not> to_appear_in_schedule g nd")
    case True
    with r obtain e1 where e1: "rec env nd = Inr e1" and res: "res = (e1, True)"
      by (cases "rec env nd") auto
    from ext[OF e1] True res show ?thesis by (simp add: make_ready_go[OF False])
  next
    case F: False
    then have "make_ready rec' g sel env pred nd = make_ready rec g sel env pred nd"
      by (auto simp: make_ready_go[OF False] split: sum.splits bool.splits)
    with r show ?thesis by (simp add: make_ready_go[OF False])
  qed
qed

lemma make_users_ready_loop_mono:
  assumes ext: "\<And>e n e'. rec e n = Inr e' \<Longrightarrow> rec' e n = Inr e'"
  shows "make_users_ready_loop rec g sel nd users env = Inr env'
           \<Longrightarrow> make_users_ready_loop rec' g sel nd users env = Inr env'"
proof (induction users arbitrary: env)
  case Nil
  then show ?case by simp
next
  case (Cons user rest)
  show ?case
  proof (cases "is_Phi g user")
    case True
    with Cons show ?thesis by simp
  next
    case False
    with Cons.prems obtain env1 b where
      m: "make_ready rec g sel env nd user = Inr (env1, b)" and
      l: "make_users_ready_loop rec g sel nd rest env1 = Inr env'"
      by (auto split: sum.splits prod.splits)
    have "make_ready rec' g sel env nd user = Inr (env1, b)"
      by (rule make_ready_mono[OF _ m]) (rule ext)
    with Cons.IH[OF l] False show ?thesis by simp
  qed
qed

lemma make_users_ready_mono:
  assumes ext: "\<And>e n e'. rec e n = Inr e' \<Longrightarrow> rec' e n = Inr e'"
    and r: "make_users_ready rec g sel env nd = Inr env'"
  shows "make_users_ready rec' g sel env nd = Inr env'"
proof -
  from r obtain env1 where
    a: "make_users_ready_loop rec g sel nd (out_edges g nd) env = Inr env1" and
    b: "make_users_ready_loop rec g sel nd (dep_out_edges g nd) env1 = Inr env'"
    by (auto simp: make_users_ready_def split: sum.splits)
  have "make_users_ready_loop rec' g sel nd (out_edges g nd) env = Inr env1"
    by (rule make_users_ready_loop_mono[OF _ a]) (rule ext)
  moreover have "make_users_ready_loop rec' g sel nd (dep_out_edges g nd) env1 = Inr env'"
    by (rule make_users_ready_loop_mono[OF _ b]) (rule ext)
  ultimately show ?thesis by (simp add: make_users_ready_def)
qed

lemma add_to_sched_body_mono:
  assumes ext: "\<And>e n e'. rec e n = Inr e' \<Longrightarrow> rec' e n = Inr e'"
    and d: "d \<le> d'"
    and r: "add_to_sched_body d rec g sel env nd = Inr env'"
  shows "add_to_sched_body d' rec' g sel env nd = Inr env'"
proof -
  define st where "st dd = (if to_appear_in_schedule g nd then
              (case update_sched_liveness dd g env nd of
                 Inl e \<Rightarrow> Inl e
               | Inr env1 \<Rightarrow> Inr (env1\<lparr>sched_list := sched_list env1 @ [nd],
                                     cands := ir_nodeset_remove (cands env1) nd\<rparr>))
            else Inr env)" for dd
  from r obtain e2 where e2: "st d = Inr e2"
    by (cases "st d") (simp_all add: add_to_sched_body_def st_def[symmetric])
  have e2': "st d' = Inr e2"
  proof (cases "to_appear_in_schedule g nd")
    case True
    with e2 obtain env1 where u: "update_sched_liveness d g env nd = Inr env1"
      by (cases "update_sched_liveness d g env nd") (simp_all add: st_def)
    from update_sched_liveness_mono[OF u d] u e2 True show ?thesis by (simp add: st_def)
  next
    case False
    with e2 show ?thesis by (simp add: st_def)
  qed
  define e4 where "e4 = (case node_selected sel of
                         None \<Rightarrow> e2
                       | Some f \<Rightarrow> e2\<lparr>selector_block_env := f (selector_block_env e2) nd\<rparr>)
                      \<lparr>already_sched := insert nd (already_sched
                         (case node_selected sel of
                         None \<Rightarrow> e2
                       | Some f \<Rightarrow> e2\<lparr>selector_block_env := f (selector_block_env e2) nd\<rparr>))\<rparr>"
  from r e2 have m: "make_users_ready rec g sel e4 nd = Inr env'"
    by (simp add: add_to_sched_body_def st_def[symmetric] Let_def e4_def)
  have "make_users_ready rec' g sel e4 nd = Inr env'"
    by (rule make_users_ready_mono[OF _ m]) (rule ext)
  with e2' show ?thesis
    by (simp add: add_to_sched_body_def st_def[symmetric] Let_def e4_def)
qed

lemma add_to_sched_mono:
  "add_to_sched fuel g sel env nd = Inr env' \<Longrightarrow> fuel \<le> fuel'
     \<Longrightarrow> add_to_sched fuel' g sel env nd = Inr env'"
proof (induction fuel arbitrary: fuel' env nd env')
  case 0
  then show ?case by simp
next
  case (Suc fuel)
  from Suc.prems(2) obtain f where f: "fuel' = Suc f" and le: "fuel \<le> f" by (cases fuel') auto
  from Suc.prems(1)
  have r: "add_to_sched_body (Suc fuel) (add_to_sched fuel g sel) g sel env nd = Inr env'"
    by simp
  have "add_to_sched_body (Suc f) (add_to_sched f g sel) g sel env nd = Inr env'"
  proof (rule add_to_sched_body_mono[OF _ _ r])
    fix e n e'
    assume "add_to_sched fuel g sel e n = Inr e'"
    then show "add_to_sched f g sel e n = Inr e'" by (rule Suc.IH[OF _ le])
  next
    from le show "Suc fuel \<le> Suc f" by simp
  qed
  then show ?case by (simp add: f)
qed

lemma seed_node_unfold:
  "seed_node fuel g sel env nd =
     (if is_End g nd \<or> length (out_edges g nd) = 0
          \<or> (length (out_edges g nd) = 1 \<and> is_Anchor g (hd (out_edges g nd)))
      then Inr env
      else if is_Phi g nd \<or> be_is_Start g nd then add_to_sched fuel g sel env nd
      else if fst (seed_operands g (sched_block env) (ins_or_deps g nd) (sched_live env)) then
             (case make_ready (add_to_sched fuel g sel) g sel
                     (env\<lparr>sched_live := snd (seed_operands g (sched_block env)
                                                (ins_or_deps g nd) (sched_live env))\<rparr>) 0 nd of
                Inl e \<Rightarrow> Inl e
              | Inr (env2, _) \<Rightarrow> Inr env2)
      else Inr (env\<lparr>sched_live := snd (seed_operands g (sched_block env)
                                         (ins_or_deps g nd) (sched_live env))\<rparr>))"
  by (simp add: seed_node_def Let_def)

lemma seed_node_mono:
  assumes r: "seed_node fuel g sel env nd = Inr env'" and le: "fuel \<le> fuel'"
  shows "seed_node fuel' g sel env nd = Inr env'"
proof -
  have ext: "\<And>e n e'. add_to_sched fuel g sel e n = Inr e'
      \<Longrightarrow> add_to_sched fuel' g sel e n = Inr e'"
    by (rule add_to_sched_mono[OF _ le])
  show ?thesis
  proof (cases "is_End g nd \<or> length (out_edges g nd) = 0
          \<or> (length (out_edges g nd) = 1 \<and> is_Anchor g (hd (out_edges g nd)))")
    case True
    from r show ?thesis unfolding seed_node_unfold if_P[OF True] .
  next
    case skip: False
    show ?thesis
    proof (cases "is_Phi g nd \<or> be_is_Start g nd")
      case True
      from r have "add_to_sched fuel g sel env nd = Inr env'"
        unfolding seed_node_unfold if_not_P[OF skip] if_P[OF True] .
      from ext[OF this] show ?thesis
        unfolding seed_node_unfold if_not_P[OF skip] if_P[OF True] .
    next
      case other: False
      show ?thesis
      proof (cases "fst (seed_operands g (sched_block env) (ins_or_deps g nd) (sched_live env))")
        case False
        from r show ?thesis
          unfolding seed_node_unfold if_not_P[OF skip] if_not_P[OF other] if_not_P[OF False] .
      next
        case True
        define e1 where "e1 = env\<lparr>sched_live := snd (seed_operands g (sched_block env)
                                                (ins_or_deps g nd) (sched_live env))\<rparr>"
        from r have c: "(case make_ready (add_to_sched fuel g sel) g sel e1 0 nd of
                Inl e \<Rightarrow> Inl e
              | Inr (env2, _) \<Rightarrow> Inr env2) = Inr env'"
          unfolding seed_node_unfold if_not_P[OF skip] if_not_P[OF other] if_P[OF True] e1_def .
        then obtain b where
          m: "make_ready (add_to_sched fuel g sel) g sel e1 0 nd = Inr (env', b)"
          by (auto split: sum.splits prod.splits)
        have "make_ready (add_to_sched fuel' g sel) g sel e1 0 nd = Inr (env', b)"
          by (rule make_ready_mono[OF _ m]) (rule ext)
        then have "(case make_ready (add_to_sched fuel' g sel) g sel e1 0 nd of
                Inl e \<Rightarrow> Inl e
              | Inr (env2, _) \<Rightarrow> Inr env2) = Inr env'" by simp
        then show ?thesis
          unfolding seed_node_unfold if_not_P[OF skip] if_not_P[OF other] if_P[OF True] e1_def .
      qed
    qed
  qed
qed

lemma seed_nodes_mono:
  "seed_nodes fuel g sel nds env = Inr env' \<Longrightarrow> fuel \<le> fuel'
     \<Longrightarrow> seed_nodes fuel' g sel nds env = Inr env'"
proof (induction nds arbitrary: env)
  case Nil
  then show ?case by simp
next
  case (Cons nd nds)
  from Cons.prems(1) obtain env1 where a: "seed_node fuel g sel env nd = Inr env1"
    and b: "seed_nodes fuel g sel nds env1 = Inr env'"
    by (auto split: sum.splits)
  from seed_node_mono[OF a Cons.prems(2)] Cons.IH[OF b Cons.prems(2)] show ?case by simp
qed

lemma sched_loop_mono:
  "sched_loop iters fuel g sel env = Inr env' \<Longrightarrow> iters \<le> iters' \<Longrightarrow> fuel \<le> fuel'
     \<Longrightarrow> sched_loop iters' fuel' g sel env = Inr env'"
proof (induction iters arbitrary: iters' env)
  case 0
  then have "cands env = []" "env' = env" by (simp_all split: if_splits)
  then show ?case by (cases iters') simp_all
next
  case (Suc iters)
  from Suc.prems(2) obtain i where i: "iters' = Suc i" and le: "iters \<le> i" by (cases iters') auto
  show ?case
  proof (cases "cands env = []")
    case True
    with Suc.prems(1) show ?thesis by (simp add: i)
  next
    case False
    define p where "p = pick_node g sel env"
    from False Suc.prems(1) obtain env1 where
      a: "add_to_sched fuel g sel (snd p) (fst p) = Inr env1" and
      l: "sched_loop iters fuel g sel (env1\<lparr>cands := ir_nodeset_remove (cands env1) (fst p)\<rparr>)
            = Inr env'"
      by (auto simp: Let_def p_def split: sum.splits)
    from add_to_sched_mono[OF a Suc.prems(3)] Suc.IH[OF l le Suc.prems(3)] False
    show ?thesis by (simp add: i Let_def p_def)
  qed
qed

lemma list_sched_block_mono:
  assumes r: "list_sched_block iters fuel g sel env0 blk = Inr env'"
    and le: "iters \<le> iters'" "fuel \<le> fuel'"
  shows "list_sched_block iters' fuel' g sel env0 blk = Inr env'"
proof -
  define be where "be = env0\<lparr>sched_list := [], cands := [], sched_live := [], sched_block := blk,
                    selector_block_env := (case init_block sel of
                                             None \<Rightarrow> selector_block_env env0
                                           | Some f \<Rightarrow> f blk)\<rparr>"
  from r obtain env1 env2 where
    a: "seed_nodes fuel g sel (out_edges g blk) be = Inr env1" and
    b: "sched_loop iters fuel g sel env1 = Inr env2" and
    c: "env' = (case finish_block sel of
                  None \<Rightarrow> env2
                | Some f \<Rightarrow> env2\<lparr>selector_block_env := f (selector_block_env env2)\<rparr>)"
    by (auto simp: list_sched_block_def be_def[symmetric] Let_def split: sum.splits)
  from seed_nodes_mono[OF a le(2)] sched_loop_mono[OF b le] c show ?thesis
    by (simp add: list_sched_block_def be_def[symmetric] Let_def)
qed

lemma scheduled_before_iff:
  "scheduled_before g blk sl i u \<longleftrightarrow>
     (if to_appear_in_schedule g u then schedule_index sl u < i
      else is_Phi g u \<or>
           (\<forall>v \<in> set (ins_or_deps g u).
              \<not> is_Block g v \<and> nodes_block g v = blk \<longrightarrow> scheduled_before g blk sl i v))"
  by (subst scheduled_before.simps) auto

text \<open>
  In the block with the tuple node, a schedule that places \<open>24\<close>, the user of the Proj
  \<open>23\<close>, before the tuple node \<open>22\<close> does not respect the DAG.
\<close>

lemma respects_dag_rejects_user_of_Proj_first:
  "\<not> respects_dag ex_sched_graph 20 [21, 24, 22, 25]"
proof
  assume "respects_dag ex_sched_graph 20 [21, 24, 22, 25]"
  then have "\<not> is_Phi ex_sched_graph ([21, 24, 22, 25] ! 1) \<longrightarrow>
        (\<forall>u \<in> set (ins_or_deps ex_sched_graph ([21, 24, 22, 25] ! 1)).
           \<not> is_Block ex_sched_graph u \<and> nodes_block ex_sched_graph u = 20
             \<longrightarrow> scheduled_before ex_sched_graph 20 [21, 24, 22, 25] 1 u)"
    unfolding respects_dag_def by (elim allE[of _ 1]) simp
  then have "scheduled_before ex_sched_graph 20 [21, 24, 22, 25] 1 23"
    by (simp add: ex_sched_graph_sel)
  then have "scheduled_before ex_sched_graph 20 [21, 24, 22, 25] 1 22"
    by (subst (asm) scheduled_before_iff) (simp add: ex_sched_graph_sel)
  then show False
    by (subst (asm) scheduled_before_iff) (simp add: ex_sched_graph_sel schedule_index_def)
qed

text \<open>
  C8. The schedule that \<open>list_sched_block\<close> produces respects the dependency DAG for
  every node but the Phis: when the selector returns a member of the ready set, a Start
  node of the block has no operand in the block, and no node of the block is marked as
  scheduled beforehand, then every node of the schedule that is not a Phi comes after
  each of its operands and dependencies that is not a Block and lives in the same
  block: an operand that appears in the schedule has a smaller index, and for one that
  does not (a Proj), the nodes it depends on in the block have. When \<open>make_ready\<close>
  answers 1, every operand and dependency of the node that is not a Block and lives in
  the scheduled block is already scheduled. The result does not depend on the bounds
  on the iterations and on the depth of the calls, once they suffice.
\<close>

theorem list_sched_block_respects_dag:
  "(selects_candidate sel \<and> start_has_no_operand g blk
      \<and> (\<forall>u \<in> already_sched env0. nodes_block g u \<noteq> blk)
      \<and> list_sched_block iters fuel g sel env0 blk = Inr env'
    \<longrightarrow> respects_dag g blk (sched_list env'))
   \<and> (make_ready rec g sel env pred nd = Inr (env1, True)
    \<longrightarrow> operands_ready g (sched_block env) (already_sched env) nd)
   \<and> (list_sched_block iters fuel g sel env0 blk = Inr env' \<and> iters \<le> iters' \<and> fuel \<le> fuel'
    \<longrightarrow> list_sched_block iters' fuel' g sel env0 blk = Inr env')"
proof (intro conjI impI)
  assume a: "selects_candidate sel \<and> start_has_no_operand g blk
      \<and> (\<forall>u \<in> already_sched env0. nodes_block g u \<noteq> blk)
      \<and> list_sched_block iters fuel g sel env0 blk = Inr env'"
  then have "sched_inv g blk env'" by (blast intro: list_sched_block_inv)
  then show "respects_dag g blk (sched_list env')" by (simp add: sched_inv_def)
next
  assume "make_ready rec g sel env pred nd = Inr (env1, True)"
  then show "operands_ready g (sched_block env) (already_sched env) nd"
    by (rule make_ready_True)
next
  assume "list_sched_block iters fuel g sel env0 blk = Inr env' \<and> iters \<le> iters' \<and> fuel \<le> fuel'"
  then show "list_sched_block iters' fuel' g sel env0 blk = Inr env'"
    by (blast intro: list_sched_block_mono)
qed

theorem list_sched_block_respects_dag_witness:
  "selects_candidate ex_selector
   \<and> start_has_no_operand ex_sched_graph 20
   \<and> already_sched ex_sched_env = {}
   \<and> map_sum id sched_list
        (list_sched_block (Suc (Suc (Suc 0))) (Suc (Suc 0)) ex_sched_graph ex_selector
           ex_sched_env 20)
       = Inr [21, 22, 24, 25]
   \<and> respects_dag ex_sched_graph 20 [21, 22, 24, 25]
   \<and> map_sum id snd
        (make_ready (add_to_sched (Suc 0) ex_sched_graph ex_selector) ex_sched_graph ex_selector
           (ex_sched_env\<lparr>already_sched := {21, 22, 23}, sched_block := 20\<rparr>) 23 24)
       = Inr True
   \<and> operands_ready ex_sched_graph 20 {21, 22, 23} 24
   \<and> map_sum id sched_list
        (list_sched_block (Suc (Suc (Suc (Suc 0)))) (Suc (Suc (Suc 0))) ex_sched_graph
           ex_selector ex_sched_env 20)
       = Inr [21, 22, 24, 25]"
proof -
  have sc: "selects_candidate ex_selector"
    by (simp add: selects_candidate_def ex_selector_def)
  have st: "start_has_no_operand ex_sched_graph 20"
    by (simp add: start_has_no_operand_def ex_sched_graph_sel)
  have em: "already_sched ex_sched_env = {}" by (simp add: ex_sched_env_def)
  have run: "map_sum id sched_list
        (list_sched_block (Suc (Suc (Suc 0))) (Suc (Suc 0)) ex_sched_graph ex_selector
           ex_sched_env 20)
       = Inr [21, 22, 24, 25]"
    by (simp add: ex_sched_eval ex_sched_graph_sel)
  have mr: "map_sum id snd
        (make_ready (add_to_sched (Suc 0) ex_sched_graph ex_selector) ex_sched_graph ex_selector
           (ex_sched_env\<lparr>already_sched := {21, 22, 23}, sched_block := 20\<rparr>) 23 24)
       = Inr True"
    by (simp add: ex_sched_eval ex_sched_graph_sel)
  from run obtain env' where
    r: "list_sched_block (Suc (Suc (Suc 0))) (Suc (Suc 0)) ex_sched_graph ex_selector
          ex_sched_env 20 = Inr env'" and sl: "sched_list env' = [21, 22, 24, 25]"
    by (cases "list_sched_block (Suc (Suc (Suc 0))) (Suc (Suc 0)) ex_sched_graph ex_selector
                 ex_sched_env 20") auto
  from mr obtain env1 where
    m: "make_ready (add_to_sched (Suc 0) ex_sched_graph ex_selector) ex_sched_graph ex_selector
           (ex_sched_env\<lparr>already_sched := {21, 22, 23}, sched_block := 20\<rparr>) 23 24
          = Inr (env1, True)"
    by (cases "make_ready (add_to_sched (Suc 0) ex_sched_graph ex_selector) ex_sched_graph
                 ex_selector (ex_sched_env\<lparr>already_sched := {21, 22, 23}, sched_block := 20\<rparr>)
                 23 24")
       auto
  note t = list_sched_block_respects_dag[where sel = ex_selector and ?env0.0 = ex_sched_env
      and g = ex_sched_graph and blk = 20 and iters = "Suc (Suc (Suc 0))"
      and fuel = "Suc (Suc 0)" and env' = env'
      and iters' = "Suc (Suc (Suc (Suc 0)))" and fuel' = "Suc (Suc (Suc 0))"
      and rec = "add_to_sched (Suc 0) ex_sched_graph ex_selector"
      and env = "ex_sched_env\<lparr>already_sched := {21, 22, 23}, sched_block := 20\<rparr>"
      and pred = 23 and nd = 24 and ?env1.0 = env1]
  from t sc st em r sl have 1: "respects_dag ex_sched_graph 20 [21, 22, 24, 25]" by simp
  from t m have 2: "operands_ready ex_sched_graph 20 {21, 22, 23} 24" by simp
  from t r have "list_sched_block (Suc (Suc (Suc (Suc 0)))) (Suc (Suc (Suc 0))) ex_sched_graph
           ex_selector ex_sched_env 20 = Inr env'" by simp
  with sl have 3: "map_sum id sched_list
        (list_sched_block (Suc (Suc (Suc (Suc 0)))) (Suc (Suc (Suc 0))) ex_sched_graph
           ex_selector ex_sched_env 20)
       = Inr [21, 22, 24, 25]" by simp
  from sc st em run 1 mr 2 3 show ?thesis by simp
qed

text \<open>
  In the block with the Phi whose operand \<open>22\<close> lives in the block, the selector keeps
  its contract and there is no Start node, the Phi \<open>21\<close> is scheduled first and the
  schedule is \<open>[21, 22]\<close>: the operand \<open>22\<close> of \<open>21\<close> has the larger index, although the
  order \<open>[22, 21]\<close> places every operand in the block before its user.
\<close>

theorem list_sched_block_phi_operand_later:
  "selects_candidate ex_selector
   \<and> start_has_no_operand ex_phi_graph 20
   \<and> already_sched ex_sched_env = {}
   \<and> map_sum id sched_list
        (list_sched_block (Suc 0) (Suc 0) ex_phi_graph ex_selector ex_sched_env 20)
       = Inr [21, 22]
   \<and> \<not> respects_dag_spec ex_phi_graph 20 [21, 22]
   \<and> respects_dag_spec ex_phi_graph 20 [22, 21]"
proof -
  have sc: "selects_candidate ex_selector"
    by (simp add: selects_candidate_def ex_selector_def)
  have st: "start_has_no_operand ex_phi_graph 20"
    by (simp add: start_has_no_operand_def ex_phi_graph_sel)
  have em: "already_sched ex_sched_env = {}" by (simp add: ex_sched_env_def)
  have run: "map_sum id sched_list
        (list_sched_block (Suc 0) (Suc 0) ex_phi_graph ex_selector ex_sched_env 20)
       = Inr [21, 22]"
    by (simp add: ex_sched_eval ex_phi_graph_sel)
  have n: "\<not> respects_dag_spec ex_phi_graph 20 [21, 22]"
    by (simp add: respects_dag_spec_def schedule_index_def ex_phi_graph_sel)
  have y: "respects_dag_spec ex_phi_graph 20 [22, 21]"
    by (simp add: respects_dag_spec_def schedule_index_def ex_phi_graph_sel)
  from sc st em run n y show ?thesis by simp
qed

end
